theory Spec2Isabelle
  imports Main "HOL-Library.AList" "HOL-Library.Multiset"
begin

section \<open>Data model\<close>

text \<open>
  The repository holds three copies of \<open>solveHeist\<close>: the multi-source copy (the
  file that seeds one frontier with every root) and two per-root copies in
  \<open>Algorithm.ts\<close> (lines 32-175 with the library priority queue, lines 212-359
  with a sorted array and a linearly scanned risk map).

  Sensor identifiers are modelled as natural numbers and risks as integers: the
  JavaScript numbers of the input restricted to non-negative integer identifiers and
  integer risks, on which \<open>+\<close>, \<open><\<close> and \<open>===\<close> are exact.
\<close>

record Sensor =
  sensor_id :: nat
  dependencies :: "nat list"

record Risk =
  fromSensor :: nat
  toSensor :: nat
  risk_val :: int

text \<open>The element type of the priority queue: \<open>{risk, node, path}\<close>.\<close>

record Entry =
  e_risk :: int
  e_node :: nat
  e_path :: "nat list"

record TargetPathInfo =
  target :: nat
  path :: "nat list"
  risk :: int

text \<open>The per-root copies add the field \<open>root\<close> to \<open>TargetPathInfo\<close>.\<close>

record TargetPathInfoRoot = TargetPathInfo +
  root :: nat

record PathResult =
  dist :: int
  r_path :: "nat list"

text \<open>A JavaScript number that is either an integer or \<open>Infinity\<close>.\<close>

datatype num = Num int | Infinity

text \<open>\<open>graph.get(dep).push(...)\<close> on an absent key raises a TypeError.\<close>

datatype error = TypeError

type_synonym graph = "(nat \<times> nat list) list"

type_synonym riskMap = "(nat \<times> nat) \<rightharpoonup> int"

type_synonym bestKnown = "nat \<rightharpoonup> num"

section \<open>Graph construction\<close>

text \<open>
  A \<open>Map\<close> is kept as an association list in insertion order; \<open>Map.set\<close> on a present
  key overwrites in place (\<open>AList.update\<close>), \<open>Map.get\<close> is \<open>map_of\<close>.
\<close>

definition emptyGraph :: "Sensor list \<Rightarrow> graph" where
  "emptyGraph sensors = foldl (\<lambda>g s. AList.update (sensor_id s) [] g) [] sensors"

text \<open>\<open>sensor.dependencies.forEach(dep => graph.get(dep).push(sensor.id))\<close>\<close>

fun pushDeps :: "nat \<Rightarrow> nat list \<Rightarrow> graph \<Rightarrow> error + graph" where
  "pushDeps s [] g = Inr g"
| "pushDeps s (dep # deps) g =
     (case map_of g dep of
        None \<Rightarrow> Inl TypeError
      | Some ns \<Rightarrow> pushDeps s deps (AList.update dep (ns @ [s]) g))"

fun pushAll :: "Sensor list \<Rightarrow> graph \<Rightarrow> error + graph" where
  "pushAll [] g = Inr g"
| "pushAll (s # ss) g =
     (case pushDeps (sensor_id s) (dependencies s) g of
        Inl e \<Rightarrow> Inl e
      | Inr g' \<Rightarrow> pushAll ss g')"

definition buildGraph :: "Sensor list \<Rightarrow> error + graph" where
  "buildGraph sensors = pushAll sensors (emptyGraph sensors)"

text \<open>
  The second per-root copy writes \<open>graph.get(dep)?.push(sensor.id)\<close>: an absent key is
  skipped.
\<close>

fun pushDeps_opt :: "nat \<Rightarrow> nat list \<Rightarrow> graph \<Rightarrow> graph" where
  "pushDeps_opt s [] g = g"
| "pushDeps_opt s (dep # deps) g =
     (case map_of g dep of
        None \<Rightarrow> pushDeps_opt s deps g
      | Some ns \<Rightarrow> pushDeps_opt s deps (AList.update dep (ns @ [s]) g))"

definition buildGraph_opt :: "Sensor list \<Rightarrow> graph" where
  "buildGraph_opt sensors =
     foldl (\<lambda>g s. pushDeps_opt (sensor_id s) (dependencies s) g) (emptyGraph sensors) sensors"

definition neighborsOf :: "graph \<Rightarrow> nat \<Rightarrow> nat list" where
  \<comment> \<open>\<open>graph.get(node) || []\<close>\<close>
  "neighborsOf g node = (case map_of g node of None \<Rightarrow> [] | Some ns \<Rightarrow> ns)"

definition rootsOf :: "Sensor list \<Rightarrow> nat list" where
  "rootsOf sensors = sort (map sensor_id (filter (\<lambda>s. dependencies s = []) sensors))"

section \<open>Risk store\<close>

text \<open>
  The key \<open>`${from},${to}`\<close> determines the pair of identifiers, so the string-keyed
  map is a map on pairs.
\<close>

definition setRisk :: "riskMap \<Rightarrow> nat \<Rightarrow> nat \<Rightarrow> int \<Rightarrow> riskMap" where
  "setRisk rm from to v = rm((from, to) \<mapsto> v)"

definition getRisk :: "riskMap \<Rightarrow> nat \<Rightarrow> nat \<Rightarrow> int" where
  "getRisk rm from to = (case rm (from, to) of None \<Rightarrow> 0 | Some v \<Rightarrow> v)"

definition buildRiskMap :: "Risk list \<Rightarrow> riskMap" where
  "buildRiskMap risks = foldl (\<lambda>rm r. setRisk rm (fromSensor r) (toSensor r) (risk_val r)) Map.empty risks"

text \<open>\<open>for (i = 0; i < path.length - 1; i++) setRisk(path[i], path[i + 1], 0)\<close>\<close>

fun zeroPath :: "riskMap \<Rightarrow> nat list \<Rightarrow> riskMap" where
  "zeroPath rm (a # b # rest) = zeroPath (setRisk rm a b 0) (b # rest)"
| "zeroPath rm [a] = rm"
| "zeroPath rm [] = rm"

section \<open>The priority queue and its comparator\<close>

text \<open>Decimal rendering of an identifier, and \<open>path.join(',')\<close>.\<close>

definition digitChar :: "nat \<Rightarrow> char" where
  "digitChar d = ''0123456789'' ! d"

fun toString :: "nat \<Rightarrow> string" where
  "toString n = (if n < 10 then [digitChar n] else toString (n div 10) @ [digitChar (n mod 10)])"

declare toString.simps [simp del]

fun join :: "nat list \<Rightarrow> string" where
  "join [] = []"
| "join [x] = toString x"
| "join (x # y # ys) = toString x @ CHR '','' # join (y # ys)"

text \<open>
  \<open>localeCompare\<close> is the runtime's collation. On strings of decimal digits and
  commas the collation order is the order of the character codes (the comma sorts
  before every digit, the digits sort by value), so it is modelled as the
  lexicographic comparison of character codes, a proper prefix first.
\<close>

fun localeCompare :: "string \<Rightarrow> string \<Rightarrow> int" where
  "localeCompare [] [] = 0"
| "localeCompare [] (y # ys) = -1"
| "localeCompare (x # xs) [] = 1"
| "localeCompare (x # xs) (y # ys) =
     (if x = y then localeCompare xs ys
      else if (of_char x :: nat) < of_char y then -1 else 1)"

definition compare :: "Entry \<Rightarrow> Entry \<Rightarrow> int" where
  "compare a b =
     (if e_risk a \<noteq> e_risk b then e_risk a - e_risk b
      else localeCompare (join (e_path a)) (join (e_path b)))"

text \<open>
  Modelled from the spec: the class \<open>MinPriorityQueue\<close>, which the source imports
  from a package whose code is not part of the repository. The frontier of the spec
  is a min-priority structure from which the search repeatedly extracts the minimum
  element under the comparator: \<open>enqueue\<close> adds an element, \<open>dequeue\<close> removes
  and returns an element that the comparator places before or level with every other
  element. The queue is a list; \<open>front\<close> scans it for such an element. The
  comparator places only equal entries level (\<open>compare_antisym\<close> below), so it does
  not matter which of several least elements a queue returns.
\<close>

definition enqueue :: "Entry \<Rightarrow> Entry list \<Rightarrow> Entry list" where
  "enqueue e pq = pq @ [e]"

fun front :: "Entry \<Rightarrow> Entry list \<Rightarrow> Entry" where
  "front m [] = m"
| "front m (x # xs) = front (if compare x m < 0 then x else m) xs"

definition dequeue :: "Entry list \<Rightarrow> (Entry \<times> Entry list) option" where
  "dequeue pq = (case pq of [] \<Rightarrow> None | x # xs \<Rightarrow> Some (front x xs, remove1 (front x xs) pq))"

section \<open>The search loop\<close>

text \<open>
  Comparisons of a finite number with the result of \<open>risks.get(n)\<close>, which is
  \<open>undefined\<close> (\<open>None\<close>) for a key that was never set: both \<open><\<close> and \<open>===\<close> are
  then false.
\<close>

fun lessNum :: "int \<Rightarrow> num option \<Rightarrow> bool" where
  "lessNum x None = False"
| "lessNum x (Some Infinity) = True"
| "lessNum x (Some (Num y)) = (x < y)"

fun equalNum :: "int \<Rightarrow> num option \<Rightarrow> bool" where
  "equalNum x (Some (Num y)) = (x = y)"
| "equalNum x _ = False"

text \<open>
  The \<open>for (const n of neighbors)\<close> loop of the search, run for the dequeued entry
  \<open>e\<close>: it updates the best-known map and the queue.
\<close>

fun relax :: "riskMap \<Rightarrow> nat set \<Rightarrow> Entry \<Rightarrow> nat list \<Rightarrow> bestKnown \<times> Entry list \<Rightarrow> bestKnown \<times> Entry list" where
  "relax rm visited e [] st = st"
| "relax rm visited e (n # ns) (risks, pq) =
     (if n \<in> visited then relax rm visited e ns (risks, pq)
      else
        let newRisk = getRisk rm (e_node e) n + e_risk e in
        if lessNum newRisk (risks n) then
          relax rm visited e ns
            (risks(n \<mapsto> Num newRisk),
             enqueue \<lparr>e_risk = newRisk, e_node = n, e_path = e_path e @ [n]\<rparr> pq)
        else if equalNum newRisk (risks n) then
          relax rm visited e ns
            (risks, enqueue \<lparr>e_risk = newRisk, e_node = n, e_path = e_path e @ [n]\<rparr> pq)
        else relax rm visited e ns (risks, pq))"

text \<open>
  The \<open>while (!pq.isEmpty())\<close> loop. The multi-source copy and the first per-root copy
  have the same loop body up to the names \<open>risk\<close>/\<open>dist\<close> and
  \<open>risks\<close>/\<open>distances\<close>; they differ in how the queue and the best-known map are
  seeded. The loop returns the dequeued entry of the target, or \<open>None\<close> for \<open>null\<close>.
\<close>

function searchLoop :: "graph \<Rightarrow> riskMap \<Rightarrow> nat \<Rightarrow> bestKnown \<Rightarrow> nat set \<Rightarrow> Entry list \<Rightarrow> Entry option" where
  "searchLoop g rm tgt risks visited pq =
     (case dequeue pq of
        None \<Rightarrow> None
      | Some (e, rest) \<Rightarrow>
          if e_node e \<in> visited then searchLoop g rm tgt risks visited rest
          else if e_node e = tgt then Some e
          else
            searchLoop g rm tgt
              (fst (relax rm (insert (e_node e) visited) e (neighborsOf g (e_node e)) (risks, rest)))
              (insert (e_node e) visited)
              (snd (relax rm (insert (e_node e) visited) e (neighborsOf g (e_node e)) (risks, rest))))"
  by pat_completeness auto

lemma dequeue_length: "dequeue pq = Some (e, rest) \<Longrightarrow> length rest < length pq"
proof -
  have mem: "front m xs \<in> set (m # xs)" for m xs
    by (induction xs arbitrary: m) auto
  assume "dequeue pq = Some (e, rest)"
  then obtain x xs where pq: "pq = x # xs" and e: "e = front x xs" and r: "rest = remove1 e pq"
    by (auto simp: dequeue_def split: list.splits)
  from mem [of x xs] have "e \<in> set pq" by (simp add: pq e)
  then show ?thesis by (simp add: r length_remove1) (cases pq, auto)
qed

lemma relax_nil_graph: "map_of g n = None \<Longrightarrow> relax rm vis e (neighborsOf g n) st = st"
  by (simp add: neighborsOf_def)

termination searchLoop
proof (relation "measures [\<lambda>(g, rm, tgt, risks, visited, pq). card (fst ` set g - visited),
                           \<lambda>(g, rm, tgt, risks, visited, pq). length pq]", goal_cases)
  case 1
  show ?case by simp
next
  case (2 g rm tgt risks visited pq x e rest)
  then have "dequeue pq = Some (e, rest)" by auto
  then show ?case by (simp add: dequeue_length)
next
  case (3 g rm tgt risks visited pq x e rest)
  then have deq: "dequeue pq = Some (e, rest)" and nv: "e_node e \<notin> visited" by auto
  show ?case
  proof (cases "e_node e \<in> fst ` set g")
    case True
    have "fst ` set g - insert (e_node e) visited \<subset> fst ` set g - visited"
      using True nv by auto
    then have "card (fst ` set g - insert (e_node e) visited) < card (fst ` set g - visited)"
      by (intro psubset_card_mono) auto
    then show ?thesis by simp
  next
    case False
    then have "map_of g (e_node e) = None"
      by (simp add: map_of_eq_None_iff)
    then have "relax rm (insert (e_node e) visited) e (neighborsOf g (e_node e)) (risks, rest) = (risks, rest)"
      by (rule relax_nil_graph)
    moreover have "fst ` set g - insert (e_node e) visited = fst ` set g - visited"
      using False by auto
    ultimately show ?thesis using dequeue_length [OF deq] by simp
  qed
qed

declare searchLoop.simps [simp del]

section \<open>The multi-source search\<close>

text \<open>\<open>sensors.forEach(sensor => risks.set(sensor.id, Infinity))\<close>\<close>

definition initRisks :: "Sensor list \<Rightarrow> bestKnown" where
  "initRisks sensors = foldl (\<lambda>m s. m(sensor_id s \<mapsto> Infinity)) Map.empty sensors"

text \<open>\<open>for (const root of roots) { pq.enqueue(...); risks.set(root, 0) }\<close>\<close>

fun seedRoots :: "nat list \<Rightarrow> bestKnown \<times> Entry list \<Rightarrow> bestKnown \<times> Entry list" where
  "seedRoots [] st = st"
| "seedRoots (r # rs) (risks, pq) =
     seedRoots rs (risks(r \<mapsto> Num 0), enqueue \<lparr>e_risk = 0, e_node = r, e_path = [r]\<rparr> pq)"

definition multiRootDijkstra :: "Sensor list \<Rightarrow> graph \<Rightarrow> nat list \<Rightarrow> riskMap \<Rightarrow> nat \<Rightarrow> TargetPathInfo option" where
  "multiRootDijkstra sensors g roots rm tgt =
     (case searchLoop g rm tgt
             (fst (seedRoots roots (initRisks sensors, []))) {}
             (snd (seedRoots roots (initRisks sensors, []))) of
        None \<Rightarrow> None
      | Some e \<Rightarrow> Some \<lparr>target = tgt, path = e_path e, risk = e_risk e\<rparr>)"

section \<open>The per-root search\<close>

text \<open>
  \<open>dijkstra(start, target)\<close> of the first per-root copy: the queue holds the start
  alone and the best-known risk of the start stays \<open>Infinity\<close>.
\<close>

definition dijkstra :: "Sensor list \<Rightarrow> graph \<Rightarrow> riskMap \<Rightarrow> nat \<Rightarrow> nat \<Rightarrow> PathResult option" where
  "dijkstra sensors g rm start tgt =
     (case searchLoop g rm tgt (initRisks sensors) {}
             (enqueue \<lparr>e_risk = 0, e_node = start, e_path = [start]\<rparr> []) of
        None \<Rightarrow> None
      | Some e \<Rightarrow> Some \<lparr>dist = e_risk e, r_path = e_path e\<rparr>)"

text \<open>
  \<open>x < bestTarget!\<close> and \<open>root < bestRoot!\<close> compare with \<open>null\<close> while nothing was
  chosen yet; \<open>null\<close> converts to 0.
\<close>

definition orZero :: "nat option \<Rightarrow> nat" where
  "orZero b = (case b of None \<Rightarrow> 0 | Some v \<Rightarrow> v)"

fun numLess :: "int \<Rightarrow> num \<Rightarrow> bool" where
  "numLess x Infinity = True"
| "numLess x (Num y) = (x < y)"

fun numEq :: "int \<Rightarrow> num \<Rightarrow> bool" where
  "numEq x Infinity = False"
| "numEq x (Num y) = (x = y)"

text \<open>The \<open>for (const root of roots)\<close> loop: state \<open>(bestPath, bestRisk, bestRoot)\<close>.\<close>

fun scanRoots :: "(nat \<Rightarrow> PathResult option) \<Rightarrow> nat list \<Rightarrow>
    nat list option \<times> num \<times> nat option \<Rightarrow> nat list option \<times> num \<times> nat option" where
  "scanRoots search [] st = st"
| "scanRoots search (r # rs) (bestPath, bestRisk, bestRoot) =
     (case search r of
        None \<Rightarrow> scanRoots search rs (bestPath, bestRisk, bestRoot)
      | Some result \<Rightarrow>
          if numLess (dist result) bestRisk \<or> (numEq (dist result) bestRisk \<and> r < orZero bestRoot)
          then scanRoots search rs (Some (r_path result), Num (dist result), Some r)
          else scanRoots search rs (bestPath, bestRisk, bestRoot))"

definition findBestPathToTarget :: "Sensor list \<Rightarrow> graph \<Rightarrow> nat list \<Rightarrow> riskMap \<Rightarrow> nat \<Rightarrow> TargetPathInfoRoot option" where
  "findBestPathToTarget sensors g roots rm tgt =
     (case scanRoots (\<lambda>r. dijkstra sensors g rm r tgt) roots (None, Infinity, None) of
        (Some bestPath, Num bestRisk, bestRoot) \<Rightarrow>
          Some \<lparr>target = tgt, path = bestPath, risk = bestRisk, root = orZero bestRoot\<rparr>
      | _ \<Rightarrow> None)"

section \<open>The target selection loop\<close>

text \<open>
  \<open>new Set(targetSensors)\<close>: the distinct targets in the order of their first
  occurrence, which is the order in which \<open>for (const target of remainingTargets)\<close>
  visits them.
\<close>

definition newSet :: "nat list \<Rightarrow> nat list" where
  "newSet xs = foldl (\<lambda>acc x. if x \<in> set acc then acc else acc @ [x]) [] xs"

text \<open>
  The \<open>for (const target of remainingTargets)\<close> loop with its state
  \<open>(minPath, minRisk, bestTarget)\<close>; \<open>search\<close> is the search of the copy at hand.
\<close>

fun scanTargets :: "(nat \<Rightarrow> 'a TargetPathInfo_scheme option) \<Rightarrow> nat list \<Rightarrow>
    'a TargetPathInfo_scheme option \<times> num \<times> nat option \<Rightarrow>
    'a TargetPathInfo_scheme option \<times> num \<times> nat option" where
  "scanTargets search [] st = st"
| "scanTargets search (t # ts) (minPath, minRisk, bestTarget) =
     (case search t of
        None \<Rightarrow> scanTargets search ts (minPath, minRisk, bestTarget)
      | Some pathInfo \<Rightarrow>
          if numLess (risk pathInfo) minRisk \<or> (numEq (risk pathInfo) minRisk \<and> t < orZero bestTarget)
          then scanTargets search ts (Some pathInfo, Num (risk pathInfo), Some t)
          else scanTargets search ts (minPath, minRisk, bestTarget))"

definition chooseTarget :: "(nat \<Rightarrow> 'a TargetPathInfo_scheme option) \<Rightarrow> nat list \<Rightarrow>
    'a TargetPathInfo_scheme option" where
  "chooseTarget search remaining = fst (scanTargets search remaining (None, Infinity, None))"

text \<open>The \<open>while (remainingTargets.size > 0)\<close> loop of the multi-source copy.\<close>

function solveLoop :: "Sensor list \<Rightarrow> graph \<Rightarrow> nat list \<Rightarrow> riskMap \<Rightarrow> nat list \<Rightarrow> nat list list \<Rightarrow> nat list list" where
  "solveLoop sensors g roots rm remaining paths =
     (if remaining = [] then paths
      else
        case chooseTarget (multiRootDijkstra sensors g roots rm) remaining of
          None \<Rightarrow> paths
        | Some minPath \<Rightarrow>
            solveLoop sensors g roots (zeroPath rm (path minPath))
              (removeAll (target minPath) remaining) (paths @ [path minPath]))"
  by pat_completeness auto

lemma scanTargets_target:
  assumes "\<And>t i. search t = Some i \<Longrightarrow> target i = t"
  shows "fst (scanTargets search ts st) = Some i \<Longrightarrow>
    (\<forall>j. fst st = Some j \<longrightarrow> target j \<in> A) \<Longrightarrow> set ts \<subseteq> A \<Longrightarrow> target i \<in> A"
proof (induction ts arbitrary: st)
  case Nil
  then show ?case by simp
next
  case (Cons t ts)
  obtain mp mr bt where st: "st = (mp, mr, bt)" by (cases st)
  from Cons.prems(3) have tA: "t \<in> A" and sub: "set ts \<subseteq> A" by simp_all
  show ?case
  proof (cases "search t")
    case None
    with Cons.prems(1) st have "fst (scanTargets search ts st) = Some i" by simp
    from Cons.IH [OF this Cons.prems(2) sub] show ?thesis .
  next
    case (Some pi)
    then have tp: "target pi = t" by (rule assms)
    show ?thesis
    proof (cases "numLess (risk pi) mr \<or> (numEq (risk pi) mr \<and> t < orZero bt)")
      case True
      with Cons.prems(1) st Some
      have 1: "fst (scanTargets search ts (Some pi, Num (risk pi), Some t)) = Some i" by simp
      have 2: "\<forall>j. fst (Some pi, Num (risk pi), Some t) = Some j \<longrightarrow> target j \<in> A"
        using tp tA by simp
      from Cons.IH [OF 1 2 sub] show ?thesis .
    next
      case False
      with Cons.prems(1) st Some
      have "fst (scanTargets search ts st) = Some i" by simp
      from Cons.IH [OF this Cons.prems(2) sub] show ?thesis .
    qed
  qed
qed

lemma chooseTarget_target:
  assumes "\<And>t i. search t = Some i \<Longrightarrow> target i = t"
    and "chooseTarget search remaining = Some i"
  shows "target i \<in> set remaining"
proof -
  have "fst (scanTargets search remaining (None, Infinity, None)) = Some i"
    using assms(2) by (simp add: chooseTarget_def)
  from scanTargets_target [of search, OF assms(1) this] show ?thesis by simp
qed

lemma multiRootDijkstra_target:
  "multiRootDijkstra sensors g roots rm t = Some i \<Longrightarrow> target i = t"
  by (auto simp: multiRootDijkstra_def split: option.splits)

lemma length_removeAll_mem: "x \<in> set xs \<Longrightarrow> length (removeAll x xs) < length xs"
  by (induction xs) (auto simp: less_Suc_eq_le)

termination solveLoop
proof (relation "measure (\<lambda>(sensors, g, roots, rm, remaining, paths). length remaining)", goal_cases)
  case 1
  show ?case by simp
next
  case (2 sensors g roots rm remaining paths minPath)
  then have "target minPath \<in> set remaining"
    using chooseTarget_target [of "multiRootDijkstra sensors g roots rm" remaining minPath]
      multiRootDijkstra_target by blast
  then show ?case by (simp add: length_removeAll_mem)
qed

declare solveLoop.simps [simp del]

definition solveHeist :: "Sensor list \<Rightarrow> Risk list \<Rightarrow> nat list \<Rightarrow> error + nat list list" where
  "solveHeist sensors risks targetSensors =
     (case buildGraph sensors of
        Inl e \<Rightarrow> Inl e
      | Inr g \<Rightarrow>
          Inr (solveLoop sensors g (rootsOf sensors) (buildRiskMap risks) (newSet targetSensors) []))"

text \<open>The same loop in the first per-root copy, over \<open>findBestPathToTarget\<close>.\<close>

function solveLoop_perRoot :: "Sensor list \<Rightarrow> graph \<Rightarrow> nat list \<Rightarrow> riskMap \<Rightarrow> nat list \<Rightarrow> nat list list \<Rightarrow> nat list list" where
  "solveLoop_perRoot sensors g roots rm remaining paths =
     (if remaining = [] then paths
      else
        case chooseTarget (findBestPathToTarget sensors g roots rm) remaining of
          None \<Rightarrow> paths
        | Some bestOption \<Rightarrow>
            solveLoop_perRoot sensors g roots (zeroPath rm (path bestOption))
              (removeAll (target bestOption) remaining) (paths @ [path bestOption]))"
  by pat_completeness auto

lemma findBestPathToTarget_target:
  "findBestPathToTarget sensors g roots rm t = Some i \<Longrightarrow> target i = t"
  by (auto simp: findBestPathToTarget_def split: option.splits prod.splits num.splits)

termination solveLoop_perRoot
proof (relation "measure (\<lambda>(sensors, g, roots, rm, remaining, paths). length remaining)", goal_cases)
  case 1
  show ?case by simp
next
  case (2 sensors g roots rm remaining paths bestOption)
  then have "target bestOption \<in> set remaining"
    using chooseTarget_target [of "findBestPathToTarget sensors g roots rm" remaining bestOption]
      findBestPathToTarget_target by blast
  then show ?case by (simp add: length_removeAll_mem)
qed

declare solveLoop_perRoot.simps [simp del]

definition solveHeist_perRoot :: "Sensor list \<Rightarrow> Risk list \<Rightarrow> nat list \<Rightarrow> error + nat list list" where
  "solveHeist_perRoot sensors risks targetSensors =
     (case buildGraph sensors of
        Inl e \<Rightarrow> Inl e
      | Inr g \<Rightarrow>
          Inr (solveLoop_perRoot sensors g (rootsOf sensors) (buildRiskMap risks) (newSet targetSensors) []))"

section \<open>The second per-root copy\<close>

text \<open>
  \<open>Algorithm.ts\<close>, lines 212-359. The graph is built with
  \<open>graph.get(dep)?.push(sensor.id)\<close> (\<open>buildGraph_opt\<close>). The risk map is keyed by
  \<open>Edge\<close> objects, so every element of the risk list adds an entry of its own;
  \<open>getRisk\<close> returns the risk of the first entry with the given endpoints,
  \<open>setRisk\<close> overwrites the first such entry or appends one.
\<close>

type_synonym riskStore = "((nat \<times> nat) \<times> int) list"

definition buildRiskStore :: "Risk list \<Rightarrow> riskStore" where
  "buildRiskStore risks = foldl (\<lambda>store r. store @ [((fromSensor r, toSensor r), risk_val r)]) [] risks"

definition getRisk_scan :: "riskStore \<Rightarrow> nat \<Rightarrow> nat \<Rightarrow> int" where
  "getRisk_scan store from to = (case map_of store (from, to) of None \<Rightarrow> 0 | Some v \<Rightarrow> v)"

definition setRisk_scan :: "riskStore \<Rightarrow> nat \<Rightarrow> nat \<Rightarrow> int \<Rightarrow> riskStore" where
  "setRisk_scan store from to v = AList.update (from, to) v store"

fun zeroPath_scan :: "riskStore \<Rightarrow> nat list \<Rightarrow> riskStore" where
  "zeroPath_scan store (a # b # rest) = zeroPath_scan (setRisk_scan store a b 0) (b # rest)"
| "zeroPath_scan store [a] = store"
| "zeroPath_scan store [] = store"

text \<open>
  The search of this copy keeps the queue in an array that it sorts with the same
  comparator before every \<open>shift\<close>; the element shifted out is a least one, as with
  \<open>dequeue\<close>. It reads risks through \<open>getRisk\<close>, which is \<open>getRisk\<close> of the map
  \<open>map_of store\<close>, and it sets the best-known risk of the start to 0.
\<close>

definition dijkstra_scan :: "Sensor list \<Rightarrow> graph \<Rightarrow> riskStore \<Rightarrow> nat \<Rightarrow> nat \<Rightarrow> PathResult option" where
  "dijkstra_scan sensors g store start tgt =
     (case searchLoop g (map_of store) tgt ((initRisks sensors)(start \<mapsto> Num 0)) {}
             [\<lparr>e_risk = 0, e_node = start, e_path = [start]\<rparr>] of
        None \<Rightarrow> None
      | Some e \<Rightarrow> Some \<lparr>dist = e_risk e, r_path = e_path e\<rparr>)"

definition findBestPathToTarget_scan :: "Sensor list \<Rightarrow> graph \<Rightarrow> nat list \<Rightarrow> riskStore \<Rightarrow> nat \<Rightarrow> TargetPathInfoRoot option" where
  "findBestPathToTarget_scan sensors g roots store tgt =
     (case scanRoots (\<lambda>r. dijkstra_scan sensors g store r tgt) roots (None, Infinity, None) of
        (Some bestPath, Num bestRisk, bestRoot) \<Rightarrow>
          Some \<lparr>target = tgt, path = bestPath, risk = bestRisk, root = orZero bestRoot\<rparr>
      | _ \<Rightarrow> None)"

function solveLoop_scan :: "Sensor list \<Rightarrow> graph \<Rightarrow> nat list \<Rightarrow> riskStore \<Rightarrow> nat list \<Rightarrow> nat list list \<Rightarrow> nat list list" where
  "solveLoop_scan sensors g roots store remaining paths =
     (if remaining = [] then paths
      else
        case chooseTarget (findBestPathToTarget_scan sensors g roots store) remaining of
          None \<Rightarrow> paths
        | Some bestOption \<Rightarrow>
            solveLoop_scan sensors g roots (zeroPath_scan store (path bestOption))
              (removeAll (target bestOption) remaining) (paths @ [path bestOption]))"
  by pat_completeness auto

lemma findBestPathToTarget_scan_target:
  "findBestPathToTarget_scan sensors g roots store t = Some i \<Longrightarrow> target i = t"
  by (auto simp: findBestPathToTarget_scan_def split: option.splits prod.splits num.splits)

termination solveLoop_scan
proof (relation "measure (\<lambda>(sensors, g, roots, store, remaining, paths). length remaining)", goal_cases)
  case 1
  show ?case by simp
next
  case (2 sensors g roots store remaining paths bestOption)
  then have "target bestOption \<in> set remaining"
    using chooseTarget_target [of "findBestPathToTarget_scan sensors g roots store" remaining bestOption]
      findBestPathToTarget_scan_target by blast
  then show ?case by (simp add: length_removeAll_mem)
qed

declare solveLoop_scan.simps [simp del]

definition solveHeist_scan :: "Sensor list \<Rightarrow> Risk list \<Rightarrow> nat list \<Rightarrow> nat list list" where
  "solveHeist_scan sensors risks targetSensors =
     solveLoop_scan sensors (buildGraph_opt sensors) (rootsOf sensors) (buildRiskStore risks)
       (newSet targetSensors) []"

section \<open>The run, iteration by iteration\<close>

text \<open>
  The body of \<open>while (remainingTargets.size > 0)\<close> in the multi-source copy, as a
  step on the loop state (risk store, pending targets, recorded paths); \<open>None\<close> when
  the loop stops.
\<close>

definition iteration :: "Sensor list \<Rightarrow> graph \<Rightarrow> nat list \<Rightarrow>
    riskMap \<times> nat list \<times> nat list list \<Rightarrow> (riskMap \<times> nat list \<times> nat list list) option" where
  "iteration sensors g roots st =
     (case st of (rm, remaining, paths) \<Rightarrow>
        if remaining = [] then None
        else
          case chooseTarget (multiRootDijkstra sensors g roots rm) remaining of
            None \<Rightarrow> None
          | Some minPath \<Rightarrow>
              Some (zeroPath rm (path minPath), removeAll (target minPath) remaining,
                    paths @ [path minPath]))"

fun iterations :: "Sensor list \<Rightarrow> graph \<Rightarrow> nat list \<Rightarrow> nat \<Rightarrow>
    riskMap \<times> nat list \<times> nat list list \<Rightarrow> (riskMap \<times> nat list \<times> nat list list) option" where
  "iterations sensors g roots 0 st = Some st"
| "iterations sensors g roots (Suc n) st =
     (case iteration sensors g roots st of
        None \<Rightarrow> None
      | Some st' \<Rightarrow> iterations sensors g roots n st')"

text \<open>
  The outer loop of the multi-source copy, recording for every iteration that
  resolves a target the risk store the iteration searched with and the
  \<open>TargetPathInfo\<close> it chose. The recorded paths are the output of \<open>solveLoop\<close>.
\<close>

function solveTrace :: "Sensor list \<Rightarrow> graph \<Rightarrow> nat list \<Rightarrow> riskMap \<Rightarrow> nat list \<Rightarrow> (riskMap \<times> TargetPathInfo) list" where
  "solveTrace sensors g roots rm remaining =
     (if remaining = [] then []
      else
        case chooseTarget (multiRootDijkstra sensors g roots rm) remaining of
          None \<Rightarrow> []
        | Some minPath \<Rightarrow>
            (rm, minPath) #
            solveTrace sensors g roots (zeroPath rm (path minPath)) (removeAll (target minPath) remaining))"
  by pat_completeness auto

termination solveTrace
proof (relation "measure (\<lambda>(sensors, g, roots, rm, remaining). length remaining)", goal_cases)
  case 1
  show ?case by simp
next
  case (2 sensors g roots rm remaining minPath)
  then have "target minPath \<in> set remaining"
    using chooseTarget_target [of "multiRootDijkstra sensors g roots rm" remaining minPath]
      multiRootDijkstra_target by blast
  then show ?case by (simp add: length_removeAll_mem)
qed

declare solveTrace.simps [simp del]

definition resolutions :: "Sensor list \<Rightarrow> Risk list \<Rightarrow> nat list \<Rightarrow> error + (riskMap \<times> TargetPathInfo) list" where
  "resolutions sensors risks targetSensors =
     (case buildGraph sensors of
        Inl e \<Rightarrow> Inl e
      | Inr g \<Rightarrow> Inr (solveTrace sensors g (rootsOf sensors) (buildRiskMap risks) (newSet targetSensors)))"

text \<open>The risks at which the successive targets of a run are resolved.\<close>

definition resolvedRisks :: "Sensor list \<Rightarrow> Risk list \<Rightarrow> nat list \<Rightarrow> error + int list" where
  "resolvedRisks sensors risks targetSensors =
     (case resolutions sensors risks targetSensors of
        Inl e \<Rightarrow> Inl e
      | Inr tr \<Rightarrow> Inr (map (\<lambda>x. risk (snd x)) tr))"

section \<open>Vocabulary of the claims\<close>

text \<open>The identifiers that occur in the sensor list, and a dependency on some other.\<close>

definition sensorIds :: "Sensor list \<Rightarrow> nat set" where
  "sensorIds sensors = sensor_id ` set sensors"

definition unknownDependency :: "Sensor list \<Rightarrow> bool" where
  "unknownDependency sensors \<longleftrightarrow>
     (\<exists>s. s \<in> set sensors \<and> \<not> set (dependencies s) \<subseteq> sensorIds sensors)"

definition edge :: "graph \<Rightarrow> nat \<Rightarrow> nat \<Rightarrow> bool" where
  "edge g u v \<longleftrightarrow> v \<in> set (neighborsOf g u)"

fun isPath :: "graph \<Rightarrow> nat list \<Rightarrow> bool" where
  "isPath g (a # b # rest) = (edge g a b \<and> isPath g (b # rest))"
| "isPath g [a] = True"
| "isPath g [] = True"

fun pathRisk :: "riskMap \<Rightarrow> nat list \<Rightarrow> int" where
  "pathRisk rm (a # b # rest) = getRisk rm a b + pathRisk rm (b # rest)"
| "pathRisk rm [a] = 0"
| "pathRisk rm [] = 0"

definition rootPath :: "graph \<Rightarrow> nat set \<Rightarrow> nat \<Rightarrow> nat list \<Rightarrow> bool" where
  "rootPath g R t p \<longleftrightarrow> p \<noteq> [] \<and> hd p \<in> R \<and> last p = t \<and> isPath g p"

definition reachable :: "graph \<Rightarrow> nat list \<Rightarrow> nat \<Rightarrow> bool" where
  "reachable g roots t \<longleftrightarrow> (\<exists>q. rootPath g (set roots) t q)"

definition nonNegative :: "riskMap \<Rightarrow> bool" where
  "nonNegative rm \<longleftrightarrow> (\<forall>a b. 0 \<le> getRisk rm a b)"

text \<open>A valid path from a root to the target whose risk is least among all such paths.\<close>

definition minimumRiskPath :: "graph \<Rightarrow> riskMap \<Rightarrow> nat set \<Rightarrow> nat \<Rightarrow> nat list \<Rightarrow> int \<Rightarrow> bool" where
  "minimumRiskPath g rm R tgt p r \<longleftrightarrow>
     rootPath g R tgt p \<and> r = pathRisk rm p \<and> (\<forall>q. rootPath g R tgt q \<longrightarrow> r \<le> pathRisk rm q)"

definition uniquePaths :: "graph \<Rightarrow> nat list \<Rightarrow> bool" where
  "uniquePaths g roots \<longleftrightarrow>
     (\<forall>t p p'. rootPath g (set roots) t p \<longrightarrow> rootPath g (set roots) t p' \<longrightarrow> p = p')"

text \<open>The consecutive pairs of a path.\<close>

definition onPath :: "nat list \<Rightarrow> nat \<Rightarrow> nat \<Rightarrow> bool" where
  "onPath p a b \<longleftrightarrow> (a, b) \<in> set (zip p (tl p))"

definition bestAmong :: "(nat \<Rightarrow> 'a TargetPathInfo_scheme option) \<Rightarrow> nat set \<Rightarrow> 'a TargetPathInfo_scheme \<Rightarrow> bool" where
  "bestAmong search A w \<longleftrightarrow>
     target w \<in> A \<and> search (target w) = Some w \<and>
     (\<forall>t i. t \<in> A \<longrightarrow> search t = Some i \<longrightarrow> risk w < risk i \<or> (risk w = risk i \<and> target w \<le> t))"

definition wellFormed :: "Entry \<Rightarrow> bool" where
  "wellFormed e \<longleftrightarrow> e_node e = last (e_path e)"

definition isLeast :: "Entry list \<Rightarrow> Entry \<Rightarrow> bool" where
  "isLeast pq e \<longleftrightarrow> e \<in> set pq \<and> (\<forall>x. x \<in> set pq \<longrightarrow> compare e x \<le> 0)"

section \<open>Runs with the queue left to the library\<close>

text \<open>
  The source takes its queue from \<open>@datastructures-js/priority-queue\<close> and relies on
  it for two things only: \<open>dequeue\<close> removes and returns an element that \<open>compare\<close>
  places before or level with every element of the queue, and \<open>enqueue\<close> adds an
  element. How the library arranges the elements, and which of several least
  elements it returns, is not in the source. \<open>searchRun\<close> is the
  \<open>while (!pq.isEmpty())\<close> loop under that contract alone: a step may dequeue any
  least element, and the queue may be any arrangement of its contents. The last
  argument is what the loop returns.
\<close>

inductive searchRun :: "graph \<Rightarrow> riskMap \<Rightarrow> nat \<Rightarrow> bestKnown \<Rightarrow> nat set \<Rightarrow> Entry list \<Rightarrow> Entry option \<Rightarrow> bool" where
  exhausted: "searchRun g rm tgt risks visited [] None"
| stale: "isLeast pq e \<Longrightarrow> mset rest = mset pq - {#e#} \<Longrightarrow> e_node e \<in> visited \<Longrightarrow>
     searchRun g rm tgt risks visited rest r \<Longrightarrow>
     searchRun g rm tgt risks visited pq r"
| found: "isLeast pq e \<Longrightarrow> e_node e \<notin> visited \<Longrightarrow> e_node e = tgt \<Longrightarrow>
     searchRun g rm tgt risks visited pq (Some e)"
| visit: "isLeast pq e \<Longrightarrow> mset rest = mset pq - {#e#} \<Longrightarrow> e_node e \<notin> visited \<Longrightarrow> e_node e \<noteq> tgt \<Longrightarrow>
     mset pq' = mset (snd (relax rm (insert (e_node e) visited) e (neighborsOf g (e_node e)) (risks, rest))) \<Longrightarrow>
     searchRun g rm tgt
       (fst (relax rm (insert (e_node e) visited) e (neighborsOf g (e_node e)) (risks, rest)))
       (insert (e_node e) visited) pq' r \<Longrightarrow>
     searchRun g rm tgt risks visited pq r"

text \<open>
  \<open>multiRootDijkstra\<close> over such a queue: the roots are enqueued, in whatever
  arrangement, and the loop is run.
\<close>

definition multiRootRun :: "Sensor list \<Rightarrow> graph \<Rightarrow> nat list \<Rightarrow> riskMap \<Rightarrow> nat \<Rightarrow> TargetPathInfo option \<Rightarrow> bool" where
  "multiRootRun sensors g roots rm tgt info \<longleftrightarrow>
     (\<exists>pq r. mset pq = mset (snd (seedRoots roots (initRisks sensors, []))) \<and>
        searchRun g rm tgt (fst (seedRoots roots (initRisks sensors, []))) {} pq r \<and>
        info = (case r of None \<Rightarrow> None
                | Some e \<Rightarrow> Some \<lparr>target = tgt, path = e_path e, risk = e_risk e\<rparr>))"

text \<open>
  The \<open>while (remainingTargets.size > 0)\<close> loop of the multi-source copy over such
  searches: \<open>search t\<close> is what one run of the search returned for the pending target
  \<open>t\<close> in this iteration. The last argument is the list the loop ends with.
\<close>

inductive solveRun :: "Sensor list \<Rightarrow> graph \<Rightarrow> nat list \<Rightarrow> riskMap \<Rightarrow> nat list \<Rightarrow> nat list list \<Rightarrow> nat list list \<Rightarrow> bool" where
  finished: "solveRun sensors g roots rm [] paths paths"
| stopped: "remaining \<noteq> [] \<Longrightarrow>
     (\<forall>t. t \<in> set remaining \<longrightarrow> multiRootRun sensors g roots rm t (search t)) \<Longrightarrow>
     chooseTarget search remaining = None \<Longrightarrow>
     solveRun sensors g roots rm remaining paths paths"
| recorded: "remaining \<noteq> [] \<Longrightarrow>
     (\<forall>t. t \<in> set remaining \<longrightarrow> multiRootRun sensors g roots rm t (search t)) \<Longrightarrow>
     chooseTarget search remaining = Some minPath \<Longrightarrow>
     solveRun sensors g roots (zeroPath rm (path minPath)) (removeAll (target minPath) remaining)
       (paths @ [path minPath]) out \<Longrightarrow>
     solveRun sensors g roots rm remaining paths out"

text \<open>A run of \<open>solveHeist\<close> (multi-source copy) and what it ends with.\<close>

definition heistRun :: "Sensor list \<Rightarrow> Risk list \<Rightarrow> nat list \<Rightarrow> error + nat list list \<Rightarrow> bool" where
  "heistRun sensors risks targetSensors out \<longleftrightarrow>
     (case buildGraph sensors of
        Inl e \<Rightarrow> out = Inl e
      | Inr g \<Rightarrow>
          (\<exists>paths. solveRun sensors g (rootsOf sensors) (buildRiskMap risks) (newSet targetSensors) [] paths \<and>
             out = Inr paths))"

section \<open>Invariants used in the proofs\<close>

definition selOK :: "(nat \<Rightarrow> 'a TargetPathInfo_scheme option) \<Rightarrow> nat set \<Rightarrow>
    'a TargetPathInfo_scheme option \<times> num \<times> nat option \<Rightarrow> bool" where
  "selOK search A st \<longleftrightarrow>
     (case fst st of
        None \<Rightarrow> fst (snd st) = Infinity \<and> snd (snd st) = None \<and> (\<forall>t. t \<in> A \<longrightarrow> search t = None)
      | Some w \<Rightarrow> fst (snd st) = Num (risk w) \<and> snd (snd st) = Some (target w) \<and> bestAmong search A w)"

definition entryOK :: "graph \<Rightarrow> riskMap \<Rightarrow> nat set \<Rightarrow> Entry \<Rightarrow> bool" where
  "entryOK g rm R e \<longleftrightarrow> rootPath g R (e_node e) (e_path e) \<and> e_risk e = pathRisk rm (e_path e)"

text \<open>Facts about the relaxation loop.\<close>

definition candidate :: "riskMap \<Rightarrow> Entry \<Rightarrow> nat \<Rightarrow> Entry" where
  "candidate rm e n = \<lparr>e_risk = getRisk rm (e_node e) n + e_risk e, e_node = n, e_path = e_path e @ [n]\<rparr>"

definition relax1 :: "riskMap \<Rightarrow> nat set \<Rightarrow> Entry \<Rightarrow> nat \<Rightarrow> bestKnown \<times> Entry list \<Rightarrow> bestKnown \<times> Entry list" where
  "relax1 rm vis e n st = relax rm vis e [n] st"

definition searchInv :: "bool \<Rightarrow> graph \<Rightarrow> riskMap \<Rightarrow> nat set \<Rightarrow> bestKnown \<Rightarrow> nat set \<Rightarrow> Entry list \<Rightarrow> bool" where
  "searchInv B g rm R risks visited pq \<longleftrightarrow>
     (\<forall>e. e \<in> set pq \<longrightarrow> entryOK g rm R e) \<and>
     (\<forall>w d. w \<notin> visited \<longrightarrow> risks w = Some (Num d) \<longrightarrow>
        (\<exists>e. e \<in> set pq \<and> e_node e = w \<and> e_risk e = d)) \<and>
     (\<forall>u w. u \<in> visited \<longrightarrow> edge g u w \<longrightarrow> w \<notin> visited \<longrightarrow>
        (\<exists>d. risks w = Some (Num d) \<and>
           (B \<longrightarrow> (\<forall>q. rootPath g R u q \<longrightarrow> d \<le> pathRisk rm q + getRisk rm u w)))) \<and>
     (\<forall>r. r \<in> R \<longrightarrow> r \<notin> visited \<longrightarrow> (\<exists>e. e \<in> set pq \<and> e_node e = r \<and> (B \<longrightarrow> e_risk e \<le> 0))) \<and>
     (\<forall>u w. edge g u w \<longrightarrow> risks w \<noteq> None)"

text \<open>What the loop returns.\<close>

definition searchResult :: "bool \<Rightarrow> graph \<Rightarrow> riskMap \<Rightarrow> nat set \<Rightarrow> nat \<Rightarrow> Entry option \<Rightarrow> bool" where
  "searchResult B g rm R tgt res \<longleftrightarrow>
     (case res of
        None \<Rightarrow> (\<forall>q. \<not> rootPath g R tgt q)
      | Some e \<Rightarrow> entryOK g rm R e \<and> e_node e = tgt \<and>
          (B \<longrightarrow> (\<forall>q. rootPath g R tgt q \<longrightarrow> e_risk e \<le> pathRisk rm q)))"

definition graphOK :: "Sensor list \<Rightarrow> graph \<Rightarrow> bool" where
  "graphOK sensors g \<longleftrightarrow> (\<forall>u w. edge g u w \<longrightarrow> w \<in> sensorIds sensors)"

definition valuesIn :: "graph \<Rightarrow> nat set \<Rightarrow> bool" where
  "valuesIn g A \<longleftrightarrow> (\<forall>k ns. map_of g k = Some ns \<longrightarrow> set ns \<subseteq> A)"

definition rootsInv :: "(nat \<Rightarrow> PathResult option) \<Rightarrow> nat set \<Rightarrow> nat list option \<times> num \<times> nat option \<Rightarrow> bool" where
  "rootsInv search A st \<longleftrightarrow>
     (case fst st of
        None \<Rightarrow> fst (snd st) = Infinity \<and> snd (snd st) = None \<and> (\<forall>r. r \<in> A \<longrightarrow> search r = None)
      | Some p \<Rightarrow>
          (\<exists>r res. r \<in> A \<and> search r = Some res \<and> p = r_path res \<and>
             fst (snd st) = Num (dist res) \<and> snd (snd st) = Some r \<and>
             (\<forall>r' res'. r' \<in> A \<longrightarrow> search r' = Some res' \<longrightarrow> dist res \<le> dist res')))"

text \<open>Two searches that return the same target, path and risk wherever either returns.\<close>

definition sameAnswers :: "(nat \<Rightarrow> TargetPathInfo option) \<Rightarrow> (nat \<Rightarrow> TargetPathInfoRoot option) \<Rightarrow> bool" where
  "sameAnswers s1 s2 \<longleftrightarrow>
     (\<forall>t. (s1 t = None \<longleftrightarrow> s2 t = None) \<and>
        (\<forall>i j. s1 t = Some i \<longrightarrow> s2 t = Some j \<longrightarrow>
           target i = target j \<and> path i = path j \<and> risk i = risk j))"

definition sameChoice :: "TargetPathInfo option \<Rightarrow> TargetPathInfoRoot option \<Rightarrow> bool" where
  "sameChoice a b \<longleftrightarrow>
     (case a of
        None \<Rightarrow> b = None
      | Some i \<Rightarrow> (\<exists>j. b = Some j \<and> target i = target j \<and> path i = path j \<and> risk i = risk j))"

section \<open>Example inputs\<close>

text \<open>The inputs of the repository's tests, and two inputs with two-digit identifiers.\<close>

definition mkSensor :: "nat \<Rightarrow> nat list \<Rightarrow> Sensor" where
  "mkSensor i ds = \<lparr>sensor_id = i, dependencies = ds\<rparr>"

definition mkRisk :: "nat \<Rightarrow> nat \<Rightarrow> int \<Rightarrow> Risk" where
  "mkRisk a b r = \<lparr>fromSensor = a, toSensor = b, risk_val = r\<rparr>"

definition tieSensors :: "Sensor list" where
  "tieSensors = [mkSensor 0 [], mkSensor 1 [], mkSensor 2 [0, 1]]"

definition tieGraph :: graph where
  "tieGraph = [(0, [2]), (1, [2]), (2, [])]"

definition tieRisks :: "Risk list" where
  "tieRisks = [mkRisk 0 2 5, mkRisk 1 2 5]"

text \<open>The seven sensors of the repository's first test.\<close>

definition smallSensors :: "Sensor list" where
  "smallSensors = [mkSensor 0 [], mkSensor 1 [], mkSensor 2 [0, 1], mkSensor 3 [0, 1],
     mkSensor 4 [2, 3], mkSensor 5 [2, 3], mkSensor 6 [4, 5]]"

definition smallGraph :: graph where
  "smallGraph = [(0, [2, 3]), (1, [2, 3]), (2, [4, 5]), (3, [4, 5]), (4, [6]), (5, [6]), (6, [])]"

definition smallRisks :: "Risk list" where
  "smallRisks = [mkRisk 0 2 5, mkRisk 1 2 3, mkRisk 0 3 4, mkRisk 1 3 6, mkRisk 2 4 2,
     mkRisk 3 4 3, mkRisk 2 5 4, mkRisk 3 5 2, mkRisk 4 6 1, mkRisk 5 6 1]"

definition zeroSensors :: "Sensor list" where
  "zeroSensors = [mkSensor 0 [], mkSensor 1 [0], mkSensor 2 [1], mkSensor 3 [1]]"

definition zeroGraph :: graph where
  "zeroGraph = [(0, [1]), (1, [2, 3]), (2, []), (3, [])]"

definition zeroRisks :: "Risk list" where
  "zeroRisks = [mkRisk 0 1 10, mkRisk 1 2 5, mkRisk 1 3 5]"

definition islandSensors :: "Sensor list" where
  "islandSensors = [mkSensor 0 [], mkSensor 1 [0], mkSensor 2 [2]]"

definition islandGraph :: graph where
  "islandGraph = [(0, [1]), (1, []), (2, [2])]"

definition islandRisks :: "Risk list" where
  "islandRisks = [mkRisk 0 1 4]"

text \<open>An input with a dependency on the identifier 7, which no sensor has.\<close>

definition danglingSensors :: "Sensor list" where
  "danglingSensors = [mkSensor 0 [], mkSensor 1 [0, 7]]"

definition danglingRisks :: "Risk list" where
  "danglingRisks = [mkRisk 0 1 4]"

text \<open>Two roots with two-digit identifiers that tie.\<close>

definition nineSensors :: "Sensor list" where
  "nineSensors = [mkSensor 9 [], mkSensor 10 [], mkSensor 11 [9, 10]]"

definition nineGraph :: graph where
  "nineGraph = [(9, [11]), (10, [11]), (11, [])]"

definition nineRisks :: "Risk list" where
  "nineRisks = [mkRisk 9 11 5, mkRisk 10 11 5]"

text \<open>
  A root 0 with the two-digit successors 9 and 10, both leading to the target 11;
  the two paths tie at risk 2.
\<close>

definition forkSensors :: "Sensor list" where
  "forkSensors = [mkSensor 0 [], mkSensor 9 [0], mkSensor 10 [0], mkSensor 11 [9, 10]]"

definition forkGraph :: graph where
  "forkGraph = [(0, [9, 10]), (9, [11]), (10, [11]), (11, [])]"

definition forkRisks :: "Risk list" where
  "forkRisks = [mkRisk 0 9 1, mkRisk 0 10 1, mkRisk 9 11 1, mkRisk 10 11 1]"

section \<open>Lemmas\<close>

subsection \<open>Selection of the cheapest target\<close>

lemma selOK_step:
  assumes echo: "\<And>t i. search t = Some i \<Longrightarrow> target i = t"
    and ok: "selOK search A (mp, mr, bt)"
  shows "selOK search (insert t A)
     (case search t of
        None \<Rightarrow> (mp, mr, bt)
      | Some pathInfo \<Rightarrow>
          if numLess (risk pathInfo) mr \<or> (numEq (risk pathInfo) mr \<and> t < orZero bt)
          then (Some pathInfo, Num (risk pathInfo), Some t)
          else (mp, mr, bt))"
proof (cases "search t")
  case None
  with ok show ?thesis
    by (auto simp: selOK_def bestAmong_def split: option.splits)
next
  case (Some i)
  then have ti: "target i = t" by (rule echo)
  show ?thesis
  proof (cases mp)
    case None
    with ok Some ti show ?thesis
      by (auto simp: selOK_def bestAmong_def)
  next
    case (Some w)
    with ok have mr: "mr = Num (risk w)" and bt: "bt = Some (target w)" and b: "bestAmong search A w"
      by (simp_all add: selOK_def)
    show ?thesis
    proof (cases "risk i < risk w \<or> (risk i = risk w \<and> t < target w)")
      case True
      have "bestAmong search (insert t A) i"
        unfolding bestAmong_def
      proof (intro conjI allI impI)
        show "target i \<in> insert t A" using ti by simp
        show "search (target i) = Some i" using \<open>search t = Some i\<close> ti by simp
      next
        fix t' i' assume t': "t' \<in> insert t A" and s: "search t' = Some i'"
        show "risk i < risk i' \<or> (risk i = risk i' \<and> target i \<le> t')"
        proof (cases "t' = t")
          case True
          with s \<open>search t = Some i\<close> ti show ?thesis by simp
        next
          case False
          with t' have "t' \<in> A" by simp
          with b s have "risk w < risk i' \<or> (risk w = risk i' \<and> target w \<le> t')"
            by (simp add: bestAmong_def)
          with True ti show ?thesis by auto
        qed
      qed
      with True \<open>search t = Some i\<close> mr bt ti show ?thesis
        by (simp add: selOK_def orZero_def)
    next
      case False
      have "bestAmong search (insert t A) w"
        unfolding bestAmong_def
      proof (intro conjI allI impI)
        show "target w \<in> insert t A" using b by (simp add: bestAmong_def)
        show "search (target w) = Some w" using b by (simp add: bestAmong_def)
      next
        fix t' i' assume t': "t' \<in> insert t A" and s: "search t' = Some i'"
        show "risk w < risk i' \<or> (risk w = risk i' \<and> target w \<le> t')"
        proof (cases "t' = t")
          case True
          with s \<open>search t = Some i\<close> have "i' = i" by simp
          with False True show ?thesis by auto
        next
          case False
          with t' have "t' \<in> A" by simp
          with b s show ?thesis by (simp add: bestAmong_def)
        qed
      qed
      with False \<open>search t = Some i\<close> mr bt Some show ?thesis
        by (auto simp: selOK_def orZero_def)
    qed
  qed
qed

lemma selOK_scan:
  assumes echo: "\<And>t i. search t = Some i \<Longrightarrow> target i = t"
  shows "selOK search A st \<Longrightarrow> selOK search (A \<union> set ts) (scanTargets search ts st)"
proof (induction ts arbitrary: st A)
  case Nil
  then show ?case by simp
next
  case (Cons t ts)
  obtain mp mr bt where st: "st = (mp, mr, bt)" by (cases st)
  from selOK_step [of search A mp mr bt t, OF echo] Cons.prems st
  have "selOK search (insert t A)
     (case search t of
        None \<Rightarrow> (mp, mr, bt)
      | Some pathInfo \<Rightarrow>
          if numLess (risk pathInfo) mr \<or> (numEq (risk pathInfo) mr \<and> t < orZero bt)
          then (Some pathInfo, Num (risk pathInfo), Some t)
          else (mp, mr, bt))" by simp
  from Cons.IH [OF this] show ?case
    by (cases "search t") (auto simp: st split: if_splits)
qed

lemma chooseTarget_best:
  assumes echo: "\<And>t i. search t = Some i \<Longrightarrow> target i = t"
  shows "chooseTarget search remaining = Some w \<Longrightarrow> bestAmong search (set remaining) w"
    and "chooseTarget search remaining = None \<Longrightarrow> t \<in> set remaining \<Longrightarrow> search t = None"
proof -
  have "selOK search {} (None, Infinity, None)" by (simp add: selOK_def)
  from selOK_scan [of search, OF echo this, of remaining]
  have ok: "selOK search (set remaining) (scanTargets search remaining (None, Infinity, None))" by simp
  show "chooseTarget search remaining = Some w \<Longrightarrow> bestAmong search (set remaining) w"
    using ok by (simp add: selOK_def chooseTarget_def)
  show "chooseTarget search remaining = None \<Longrightarrow> t \<in> set remaining \<Longrightarrow> search t = None"
    using ok by (simp add: selOK_def chooseTarget_def)
qed

subsection \<open>Paths and queue entries\<close>

lemma isPath_snoc: "p \<noteq> [] \<Longrightarrow> isPath g (p @ [v]) = (isPath g p \<and> edge g (last p) v)"
  by (induction g p rule: isPath.induct) auto

lemma pathRisk_snoc: "p \<noteq> [] \<Longrightarrow> pathRisk rm (p @ [v]) = pathRisk rm p + getRisk rm (last p) v"
  by (induction rm p rule: pathRisk.induct) auto

lemma rootPath_single: "rootPath g R t [r] \<longleftrightarrow> r \<in> R \<and> t = r"
  by (auto simp: rootPath_def)

lemma rootPath_snoc:
  "p \<noteq> [] \<Longrightarrow> rootPath g R t (p @ [v]) \<longleftrightarrow> rootPath g R (last p) p \<and> edge g (last p) v \<and> t = v"
  by (auto simp: rootPath_def isPath_snoc)

lemma entryOK_extend:
  assumes "entryOK g rm R e" and "edge g (e_node e) n"
  shows "entryOK g rm R \<lparr>e_risk = getRisk rm (e_node e) n + e_risk e, e_node = n, e_path = e_path e @ [n]\<rparr>"
proof -
  from assms(1) have ne: "e_path e \<noteq> []" and l: "last (e_path e) = e_node e"
    by (simp_all add: entryOK_def rootPath_def)
  with assms show ?thesis
    by (simp add: entryOK_def rootPath_snoc pathRisk_snoc)
qed

lemma pathRisk_nonneg: "nonNegative rm \<Longrightarrow> 0 \<le> pathRisk rm p"
  by (induction rm p rule: pathRisk.induct) (auto simp: nonNegative_def)

text \<open>Facts about dequeue.\<close>

lemma front_mem: "front m xs \<in> set (m # xs)"
  by (induction xs arbitrary: m) auto

lemma front_least: "x \<in> set (m # xs) \<Longrightarrow> e_risk (front m xs) \<le> e_risk x"
proof (induction xs arbitrary: m x)
  case Nil
  then show ?case by simp
next
  case (Cons y ys)
  have step: "e_risk (if compare y m < 0 then y else m) \<le> e_risk m"
    "e_risk (if compare y m < 0 then y else m) \<le> e_risk y"
    by (auto simp: compare_def split: if_splits)
  from Cons.prems consider "x = m" | "x = y" | "x \<in> set ys" by auto
  then show ?case
  proof cases
    case 1
    have "e_risk (front (if compare y m < 0 then y else m) ys) \<le> e_risk (if compare y m < 0 then y else m)"
      using Cons.IH [of "if compare y m < 0 then y else m" "if compare y m < 0 then y else m"] by simp
    with step 1 show ?thesis by simp
  next
    case 2
    have "e_risk (front (if compare y m < 0 then y else m) ys) \<le> e_risk (if compare y m < 0 then y else m)"
      using Cons.IH [of "if compare y m < 0 then y else m" "if compare y m < 0 then y else m"] by simp
    with step 2 show ?thesis by simp
  next
    case 3
    then show ?thesis using Cons.IH [of x "if compare y m < 0 then y else m"] by simp
  qed
qed

lemma dequeue_None: "dequeue pq = None \<longleftrightarrow> pq = []"
  by (simp add: dequeue_def split: list.splits)

lemma dequeue_Some:
  assumes "dequeue pq = Some (e, rest)"
  shows "e \<in> set pq" and "set rest \<subseteq> set pq" and "\<And>x. x \<in> set pq \<Longrightarrow> x = e \<or> x \<in> set rest"
    and "\<And>x. x \<in> set pq \<Longrightarrow> e_risk e \<le> e_risk x"
proof -
  from assms obtain y ys where pq: "pq = y # ys" and e: "e = front y ys" and r: "rest = remove1 e pq"
    by (auto simp: dequeue_def split: list.splits)
  show "e \<in> set pq" using front_mem [of y ys] by (simp add: pq e)
  show "set rest \<subseteq> set pq" using set_remove1_subset [of e pq] by (simp add: r)
  show "\<And>x. x \<in> set pq \<Longrightarrow> x = e \<or> x \<in> set rest"
    unfolding r by (metis in_set_remove1)
  show "\<And>x. x \<in> set pq \<Longrightarrow> e_risk e \<le> e_risk x"
    using front_least [of _ y ys] by (simp add: pq e)
qed

subsection \<open>The relaxation loop\<close>

lemma relax1_eq:
  "relax1 rm vis e n st =
     (if n \<in> vis then st
      else if lessNum (e_risk (candidate rm e n)) (fst st n)
        then ((fst st)(n \<mapsto> Num (e_risk (candidate rm e n))), snd st @ [candidate rm e n])
      else if equalNum (e_risk (candidate rm e n)) (fst st n)
        then (fst st, snd st @ [candidate rm e n])
      else st)"
  by (cases st) (simp add: relax1_def candidate_def Let_def enqueue_def)

lemma relax_Cons: "relax rm vis e (n # ns) st = relax rm vis e ns (relax1 rm vis e n st)"
  by (cases st) (simp add: relax1_def Let_def)

lemma relax_Nil: "relax rm vis e [] st = st"
  by simp

lemma relax1_queue_mono: "x \<in> set (snd st) \<Longrightarrow> x \<in> set (snd (relax1 rm vis e n st))"
  by (simp add: relax1_eq)

lemma relax1_queue_new:
  "x \<in> set (snd (relax1 rm vis e n st)) \<Longrightarrow> x \<in> set (snd st) \<or> (n \<notin> vis \<and> x = candidate rm e n)"
  by (auto simp: relax1_eq split: if_splits)

lemma relax1_risks_backed:
  "fst (relax1 rm vis e n st) w = Some (Num d) \<Longrightarrow>
     fst st w = Some (Num d) \<or>
     (w \<notin> vis \<and> (\<exists>x. x \<in> set (snd (relax1 rm vis e n st)) \<and> e_node x = w \<and> e_risk x = d))"
  by (auto simp: relax1_eq candidate_def split: if_splits)

lemma relax1_risks_mono:
  "fst st w = Some (Num d) \<Longrightarrow> \<exists>d'. fst (relax1 rm vis e n st) w = Some (Num d') \<and> d' \<le> d"
  by (auto simp: relax1_eq)

lemma relax1_risks_defined: "fst st w \<noteq> None \<Longrightarrow> fst (relax1 rm vis e n st) w \<noteq> None"
  by (auto simp: relax1_eq)

lemma relax1_relaxed:
  assumes "n \<notin> vis" and "fst st n \<noteq> None"
  shows "\<exists>d. fst (relax1 rm vis e n st) n = Some (Num d) \<and> d \<le> e_risk (candidate rm e n)"
proof -
  from assms(2) obtain v where v: "fst st n = Some v" by auto
  show ?thesis
  proof (cases v)
    case (Num y)
    with v assms(1) show ?thesis by (auto simp: relax1_eq)
  next
    case Infinity
    with v assms(1) show ?thesis by (auto simp: relax1_eq)
  qed
qed

lemma relax_queue_mono: "x \<in> set (snd st) \<Longrightarrow> x \<in> set (snd (relax rm vis e ns st))"
proof (induction ns arbitrary: st)
  case Nil
  then show ?case by simp
next
  case (Cons n ns)
  from Cons.IH [OF relax1_queue_mono [OF Cons.prems]] show ?case
    by (simp only: relax_Cons)
qed

lemma relax_queue_new:
  "x \<in> set (snd (relax rm vis e ns st)) \<Longrightarrow>
     x \<in> set (snd st) \<or> (\<exists>n. n \<in> set ns \<and> n \<notin> vis \<and> x = candidate rm e n)"
proof (induction ns arbitrary: st)
  case Nil
  then show ?case by simp
next
  case (Cons n ns)
  from Cons.prems have "x \<in> set (snd (relax rm vis e ns (relax1 rm vis e n st)))"
    by (simp only: relax_Cons)
  from Cons.IH [OF this] relax1_queue_new [of x rm vis e n st] show ?case by auto
qed

lemma relax_risks_backed:
  "fst (relax rm vis e ns st) w = Some (Num d) \<Longrightarrow>
     fst st w = Some (Num d) \<or>
     (w \<notin> vis \<and> (\<exists>x. x \<in> set (snd (relax rm vis e ns st)) \<and> e_node x = w \<and> e_risk x = d))"
proof (induction ns arbitrary: st)
  case Nil
  then show ?case by simp
next
  case (Cons n ns)
  let ?st1 = "relax1 rm vis e n st"
  from Cons.prems have "fst (relax rm vis e ns ?st1) w = Some (Num d)"
    by (simp only: relax_Cons)
  from Cons.IH [OF this]
  consider (a) "fst ?st1 w = Some (Num d)"
    | (b) "w \<notin> vis \<and> (\<exists>x. x \<in> set (snd (relax rm vis e ns ?st1)) \<and> e_node x = w \<and> e_risk x = d)"
    by blast
  then show ?case
  proof cases
    case a
    from relax1_risks_backed [OF a]
    show ?thesis
    proof
      assume "fst st w = Some (Num d)"
      then show ?thesis by simp
    next
      assume "w \<notin> vis \<and> (\<exists>x. x \<in> set (snd ?st1) \<and> e_node x = w \<and> e_risk x = d)"
      then obtain x where "w \<notin> vis" "x \<in> set (snd ?st1)" "e_node x = w" "e_risk x = d" by blast
      with relax_queue_mono [of x ?st1 rm vis e ns] show ?thesis
        by (auto simp only: relax_Cons)
    qed
  next
    case b
    then show ?thesis by (simp only: relax_Cons) simp
  qed
qed

lemma relax_risks_mono:
  "fst st w = Some (Num d) \<Longrightarrow> \<exists>d'. fst (relax rm vis e ns st) w = Some (Num d') \<and> d' \<le> d"
proof (induction ns arbitrary: st d)
  case Nil
  then show ?case by simp
next
  case (Cons n ns)
  from relax1_risks_mono [OF Cons.prems, of rm vis e n] obtain d1 where
    d1: "fst (relax1 rm vis e n st) w = Some (Num d1)" "d1 \<le> d" by blast
  from Cons.IH [OF d1(1)] obtain d' where
    "fst (relax rm vis e ns (relax1 rm vis e n st)) w = Some (Num d')" "d' \<le> d1" by blast
  with d1(2) show ?case by (simp only: relax_Cons) auto
qed

lemma relax_risks_defined: "fst st w \<noteq> None \<Longrightarrow> fst (relax rm vis e ns st) w \<noteq> None"
proof (induction ns arbitrary: st)
  case Nil
  then show ?case by simp
next
  case (Cons n ns)
  have "fst (relax1 rm vis e n st) w \<noteq> None"
    using Cons.prems by (rule relax1_risks_defined)
  then have "fst (relax rm vis e ns (relax1 rm vis e n st)) w \<noteq> None"
    by (rule Cons.IH)
  then show ?case by (simp add: relax_Cons)
qed

lemma relax_relaxed:
  "n \<in> set ns \<Longrightarrow> n \<notin> vis \<Longrightarrow> fst st n \<noteq> None \<Longrightarrow>
     \<exists>d. fst (relax rm vis e ns st) n = Some (Num d) \<and> d \<le> e_risk (candidate rm e n)"
proof (induction ns arbitrary: st)
  case Nil
  then show ?case by simp
next
  case (Cons m ns)
  show ?case
  proof (cases "m = n")
    case True
    from relax1_relaxed [OF Cons.prems(2,3), of rm e] obtain d1 where
      d1: "fst (relax1 rm vis e n st) n = Some (Num d1)" "d1 \<le> e_risk (candidate rm e n)" by blast
    from relax_risks_mono [OF d1(1), of rm vis e ns] obtain d' where
      "fst (relax rm vis e ns (relax1 rm vis e n st)) n = Some (Num d')" "d' \<le> d1" by blast
    with d1(2) True show ?thesis by (simp only: relax_Cons) auto
  next
    case False
    with Cons.prems(1) have n: "n \<in> set ns" by simp
    have "fst (relax1 rm vis e m st) n \<noteq> None"
      using Cons.prems(3) by (rule relax1_risks_defined)
    from Cons.IH [OF n Cons.prems(2) this]
    show ?thesis by (simp only: relax_Cons)
  qed
qed

subsection \<open>The invariant of the search loop\<close>

lemma searchInv_entries: "searchInv B g rm R risks visited pq \<Longrightarrow> e \<in> set pq \<Longrightarrow> entryOK g rm R e"
  by (simp add: searchInv_def)

lemma searchInv_backed:
  "searchInv B g rm R risks visited pq \<Longrightarrow> w \<notin> visited \<Longrightarrow> risks w = Some (Num d) \<Longrightarrow>
     \<exists>e. e \<in> set pq \<and> e_node e = w \<and> e_risk e = d"
  by (simp add: searchInv_def)

lemma searchInv_relaxed:
  "searchInv B g rm R risks visited pq \<Longrightarrow> u \<in> visited \<Longrightarrow> edge g u w \<Longrightarrow> w \<notin> visited \<Longrightarrow>
     \<exists>d. risks w = Some (Num d) \<and>
           (B \<longrightarrow> (\<forall>q. rootPath g R u q \<longrightarrow> d \<le> pathRisk rm q + getRisk rm u w))"
  by (simp add: searchInv_def)

lemma searchInv_roots:
  "searchInv B g rm R risks visited pq \<Longrightarrow> r \<in> R \<Longrightarrow> r \<notin> visited \<Longrightarrow>
     \<exists>e. e \<in> set pq \<and> e_node e = r \<and> (B \<longrightarrow> e_risk e \<le> 0)"
  by (simp add: searchInv_def)

lemma searchInv_defined: "searchInv B g rm R risks visited pq \<Longrightarrow> edge g u w \<Longrightarrow> risks w \<noteq> None"
  by (simp add: searchInv_def)

lemma frontier:
  assumes inv: "searchInv B g rm R risks visited pq" and nn: "B \<longrightarrow> nonNegative rm"
  shows "rootPath g R v p \<Longrightarrow> v \<notin> visited \<Longrightarrow>
     \<exists>e. e \<in> set pq \<and> e_node e \<notin> visited \<and> (B \<longrightarrow> e_risk e \<le> pathRisk rm p)"
proof (induction p arbitrary: v rule: rev_induct)
  case Nil
  then show ?case by (simp add: rootPath_def)
next
  case (snoc x xs)
  show ?case
  proof (cases "xs = []")
    case True
    with snoc.prems have "x \<in> R" "v = x" by (simp_all add: rootPath_single)
    with searchInv_roots [OF inv, of x] snoc.prems(2) True show ?thesis by auto
  next
    case False
    with snoc.prems(1) have rp: "rootPath g R (last xs) xs" and ed: "edge g (last xs) x" and vx: "v = x"
      by (simp_all add: rootPath_snoc)
    have cost: "pathRisk rm (xs @ [x]) = pathRisk rm xs + getRisk rm (last xs) x"
      using False by (rule pathRisk_snoc)
    show ?thesis
    proof (cases "last xs \<in> visited")
      case True
      from searchInv_relaxed [OF inv True ed] snoc.prems(2) vx obtain d where
        d: "risks x = Some (Num d)" "B \<longrightarrow> (\<forall>q. rootPath g R (last xs) q \<longrightarrow> d \<le> pathRisk rm q + getRisk rm (last xs) x)"
        by auto
      from searchInv_backed [OF inv _ d(1)] snoc.prems(2) vx obtain e where
        "e \<in> set pq" "e_node e = x" "e_risk e = d" by auto
      with d(2) rp cost snoc.prems(2) vx show ?thesis by auto
    next
      case False
      from snoc.IH [OF rp False] obtain e where
        e: "e \<in> set pq" "e_node e \<notin> visited" "B \<longrightarrow> e_risk e \<le> pathRisk rm xs" by blast
      have "B \<longrightarrow> 0 \<le> getRisk rm (last xs) x" using nn by (simp add: nonNegative_def)
      with e cost show ?thesis by auto
    qed
  qed
qed

lemma searchInv_skip:
  assumes inv: "searchInv B g rm R risks visited pq"
    and deq: "dequeue pq = Some (e, rest)" and vis: "e_node e \<in> visited"
  shows "searchInv B g rm R risks visited rest"
  unfolding searchInv_def
proof (intro conjI allI impI)
  fix x assume "x \<in> set rest"
  with dequeue_Some(2) [OF deq] searchInv_entries [OF inv] show "entryOK g rm R x" by auto
next
  fix w d assume w: "w \<notin> visited" "risks w = Some (Num d)"
  from searchInv_backed [OF inv w] obtain x where x: "x \<in> set pq" "e_node x = w" "e_risk x = d" by blast
  with vis w(1) have "x \<noteq> e" by auto
  with dequeue_Some(3) [OF deq x(1)] x show "\<exists>x. x \<in> set rest \<and> e_node x = w \<and> e_risk x = d" by auto
next
  fix u w assume "u \<in> visited" "edge g u w" "w \<notin> visited"
  from searchInv_relaxed [OF inv this]
  show "\<exists>d. risks w = Some (Num d) \<and> (B \<longrightarrow> (\<forall>q. rootPath g R u q \<longrightarrow> d \<le> pathRisk rm q + getRisk rm u w))" .
next
  fix r assume r: "r \<in> R" "r \<notin> visited"
  from searchInv_roots [OF inv r] obtain x where x: "x \<in> set pq" "e_node x = r" "B \<longrightarrow> e_risk x \<le> 0" by blast
  with vis r(2) have "x \<noteq> e" by auto
  with dequeue_Some(3) [OF deq x(1)] x show "\<exists>x. x \<in> set rest \<and> e_node x = r \<and> (B \<longrightarrow> e_risk x \<le> 0)" by auto
next
  fix u w assume "edge g u w"
  from searchInv_defined [OF inv this] show "risks w \<noteq> None" .
qed

lemma dequeued_least:
  assumes inv: "searchInv B g rm R risks visited pq" and nn: "B \<longrightarrow> nonNegative rm"
    and deq: "dequeue pq = Some (e, rest)" and nv: "e_node e \<notin> visited"
    and rp: "rootPath g R (e_node e) q" and B: "B"
  shows "e_risk e \<le> pathRisk rm q"
proof -
  from frontier [OF inv nn rp nv] B obtain x where "x \<in> set pq" "e_risk x \<le> pathRisk rm q" by blast
  with dequeue_Some(4) [OF deq, of x] show ?thesis by simp
qed

lemma searchInv_visit:
  assumes inv: "searchInv B g rm R risks visited pq" and nn: "B \<longrightarrow> nonNegative rm"
    and deq: "dequeue pq = Some (e, rest)" and nv: "e_node e \<notin> visited"
  shows "searchInv B g rm R
     (fst (relax rm (insert (e_node e) visited) e (neighborsOf g (e_node e)) (risks, rest)))
     (insert (e_node e) visited)
     (snd (relax rm (insert (e_node e) visited) e (neighborsOf g (e_node e)) (risks, rest)))"
    (is "searchInv B g rm R (fst ?st) ?vis (snd ?st)")
  unfolding searchInv_def
proof (intro conjI allI impI)
  have eok: "entryOK g rm R e" using searchInv_entries [OF inv dequeue_Some(1) [OF deq]] .
  {
    fix x assume "x \<in> set (snd ?st)"
    from relax_queue_new [OF this]
    show "entryOK g rm R x"
    proof
      assume "x \<in> set (snd (risks, rest))"
      with dequeue_Some(2) [OF deq] searchInv_entries [OF inv] show ?thesis by auto
    next
      assume "\<exists>n. n \<in> set (neighborsOf g (e_node e)) \<and> n \<notin> ?vis \<and> x = candidate rm e n"
      then obtain n where "edge g (e_node e) n" "x = candidate rm e n" by (auto simp: edge_def)
      with entryOK_extend [OF eok] show ?thesis by (simp add: candidate_def)
    qed
  next
    fix w d assume w: "w \<notin> ?vis" "fst ?st w = Some (Num d)"
    from relax_risks_backed [OF w(2)]
    show "\<exists>x. x \<in> set (snd ?st) \<and> e_node x = w \<and> e_risk x = d"
    proof
      assume "fst (risks, rest) w = Some (Num d)"
      then have "risks w = Some (Num d)" by simp
      from searchInv_backed [OF inv _ this] w(1) obtain x where
        x: "x \<in> set pq" "e_node x = w" "e_risk x = d" by auto
      with w(1) have "x \<noteq> e" by auto
      with dequeue_Some(3) [OF deq x(1)] have "x \<in> set (snd (risks, rest))" by simp
      from relax_queue_mono [OF this] x show ?thesis by blast
    next
      assume "w \<notin> ?vis \<and> (\<exists>x. x \<in> set (snd ?st) \<and> e_node x = w \<and> e_risk x = d)"
      then show ?thesis by blast
    qed
  next
    fix u w assume u: "u \<in> ?vis" and ed: "edge g u w" and w: "w \<notin> ?vis"
    show "\<exists>d. fst ?st w = Some (Num d) \<and>
        (B \<longrightarrow> (\<forall>q. rootPath g R u q \<longrightarrow> d \<le> pathRisk rm q + getRisk rm u w))"
    proof (cases "u = e_node e")
      case True
      from searchInv_defined [OF inv ed] have "fst (risks, rest) w \<noteq> None" by simp
      from relax_relaxed [OF _ w this, of "neighborsOf g (e_node e)" rm e] ed True obtain d where
        d: "fst ?st w = Some (Num d)" "d \<le> e_risk (candidate rm e w)" by (auto simp: edge_def)
      have "B \<longrightarrow> (\<forall>q. rootPath g R u q \<longrightarrow> d \<le> pathRisk rm q + getRisk rm u w)"
      proof (intro impI allI)
        fix q assume B and "rootPath g R u q"
        with dequeued_least [OF inv nn deq nv, of q] True have "e_risk e \<le> pathRisk rm q" by simp
        with d(2) True show "d \<le> pathRisk rm q + getRisk rm u w" by (simp add: candidate_def)
      qed
      with d(1) show ?thesis by blast
    next
      case False
      with u have uv: "u \<in> visited" by simp
      from w have "w \<notin> visited" by simp
      from searchInv_relaxed [OF inv uv ed this] obtain d where
        d: "risks w = Some (Num d)" "B \<longrightarrow> (\<forall>q. rootPath g R u q \<longrightarrow> d \<le> pathRisk rm q + getRisk rm u w)"
        by blast
      from d(1) have "fst (risks, rest) w = Some (Num d)" by simp
      from relax_risks_mono [OF this, of rm ?vis e "neighborsOf g (e_node e)"] obtain d' where
        "fst ?st w = Some (Num d')" "d' \<le> d" by blast
      with d(2) show ?thesis by fastforce
    qed
  next
    fix r assume r: "r \<in> R" "r \<notin> ?vis"
    then have "r \<notin> visited" by simp
    from searchInv_roots [OF inv r(1) this] obtain x where
      x: "x \<in> set pq" "e_node x = r" "B \<longrightarrow> e_risk x \<le> 0" by blast
    with r(2) have "x \<noteq> e" by auto
    with dequeue_Some(3) [OF deq x(1)] have "x \<in> set (snd (risks, rest))" by simp
    from relax_queue_mono [OF this] x show "\<exists>x. x \<in> set (snd ?st) \<and> e_node x = r \<and> (B \<longrightarrow> e_risk x \<le> 0)"
      by blast
  next
    fix u w assume "edge g u w"
    from searchInv_defined [OF inv this] have "fst (risks, rest) w \<noteq> None" by simp
    then show "fst ?st w \<noteq> None" by (rule relax_risks_defined)
  }
qed

lemma searchLoop_correct:
  "searchInv B g rm R risks visited pq \<Longrightarrow> tgt \<notin> visited \<Longrightarrow> B \<longrightarrow> nonNegative rm \<Longrightarrow>
     searchResult B g rm R tgt (searchLoop g rm tgt risks visited pq)"
proof (induction g rm tgt risks visited pq rule: searchLoop.induct)
  case (1 g rm tgt risks visited pq)
  note inv = "1.prems"(1) and tv = "1.prems"(2) and nn = "1.prems"(3)
  show ?case
  proof (cases "dequeue pq")
    case None
    then have "pq = []" by (simp add: dequeue_None)
    with frontier [OF inv nn] tv have "\<forall>q. \<not> rootPath g R tgt q" by fastforce
    with None show ?thesis by (simp add: searchLoop.simps [of g rm tgt risks visited pq] searchResult_def)
  next
    case (Some a)
    obtain e rest where a: "a = (e, rest)" by (cases a)
    with Some have deq: "dequeue pq = Some (e, rest)" by simp
    show ?thesis
    proof (cases "e_node e \<in> visited")
      case True
      from "1.IH"(1) [OF deq refl True searchInv_skip [OF inv deq True] tv nn] deq True
      show ?thesis by (simp add: searchLoop.simps [of g rm tgt risks visited pq])
    next
      case nv: False
      show ?thesis
      proof (cases "e_node e = tgt")
        case True
        have "entryOK g rm R e" using searchInv_entries [OF inv dequeue_Some(1) [OF deq]] .
        moreover have "B \<longrightarrow> (\<forall>q. rootPath g R tgt q \<longrightarrow> e_risk e \<le> pathRisk rm q)"
          using dequeued_least [OF inv nn deq nv] True by auto
        ultimately show ?thesis using deq nv True
          by (simp add: searchLoop.simps [of g rm tgt risks visited pq] searchResult_def)
      next
        case False
        then have tv': "tgt \<notin> insert (e_node e) visited" using tv by auto
        from "1.IH"(2) [OF deq refl nv False searchInv_visit [OF inv nn deq nv] tv' nn] deq nv False
        show ?thesis by (simp add: searchLoop.simps [of g rm tgt risks visited pq])
      qed
    qed
  qed
qed

subsection \<open>The graph built from the sensor list\<close>

lemma map_of_emptyGraph_aux:
  "map_of (foldl (\<lambda>g s. AList.update (sensor_id s) [] g) g0 sensors) k =
     (if k \<in> sensorIds sensors then Some [] else map_of g0 k)"
  by (induction sensors arbitrary: g0) (auto simp: sensorIds_def update_conv')

lemma map_of_emptyGraph:
  "map_of (emptyGraph sensors) k = (if k \<in> sensorIds sensors then Some [] else None)"
  by (simp add: emptyGraph_def map_of_emptyGraph_aux)

lemma pushDeps_values:
  "pushDeps s deps g = Inr g' \<Longrightarrow> valuesIn g A \<Longrightarrow> s \<in> A \<Longrightarrow> valuesIn g' A"
proof (induction deps arbitrary: g)
  case Nil
  then show ?case by simp
next
  case (Cons dep deps)
  from Cons.prems(1) obtain ns where ns: "map_of g dep = Some ns"
    and rec: "pushDeps s deps (AList.update dep (ns @ [s]) g) = Inr g'"
    by (auto split: option.splits)
  have "valuesIn (AList.update dep (ns @ [s]) g) A"
    using Cons.prems(2,3) ns by (auto simp: valuesIn_def update_conv')
  from Cons.IH [OF rec this Cons.prems(3)] show ?case .
qed

lemma pushDeps_dom:
  "pushDeps s deps g = Inr g' \<Longrightarrow> dom (map_of g') = dom (map_of g)"
proof (induction deps arbitrary: g)
  case Nil
  then show ?case by simp
next
  case (Cons dep deps)
  from Cons.prems(1) obtain ns where ns: "map_of g dep = Some ns"
    and rec: "pushDeps s deps (AList.update dep (ns @ [s]) g) = Inr g'"
    by (auto split: option.splits)
  have "dom (map_of (AList.update dep (ns @ [s]) g)) = dom (map_of g)"
    using ns by (auto simp: update_conv' split: if_splits)
  with Cons.IH [OF rec] show ?case by simp
qed

lemma pushDeps_error:
  "(\<exists>e. pushDeps s deps g = Inl e) \<longleftrightarrow> \<not> set deps \<subseteq> dom (map_of g)"
proof (induction deps arbitrary: g)
  case Nil
  then show ?case by simp
next
  case (Cons dep deps)
  show ?case
  proof (cases "map_of g dep")
    case None
    then show ?thesis by auto
  next
    case (Some ns)
    have "dom (map_of (AList.update dep (ns @ [s]) g)) = dom (map_of g)"
      using Some by (auto simp: update_conv' split: if_splits)
    with Cons.IH [of "AList.update dep (ns @ [s]) g"] Some show ?thesis by auto
  qed
qed

lemma pushAll_values:
  "pushAll ss g = Inr g' \<Longrightarrow> valuesIn g A \<Longrightarrow> sensorIds ss \<subseteq> A \<Longrightarrow> valuesIn g' A"
proof (induction ss arbitrary: g)
  case Nil
  then show ?case by simp
next
  case (Cons s ss)
  from Cons.prems(1) obtain g1 where g1: "pushDeps (sensor_id s) (dependencies s) g = Inr g1"
    and rec: "pushAll ss g1 = Inr g'"
    by (auto split: sum.splits)
  from Cons.prems(3) have "sensor_id s \<in> A" "sensorIds ss \<subseteq> A" by (auto simp: sensorIds_def)
  with pushDeps_values [OF g1 Cons.prems(2)] Cons.IH [OF rec] show ?case by blast
qed

lemma pushAll_error:
  "(\<exists>e. pushAll ss g = Inl e) \<longleftrightarrow> (\<exists>s. s \<in> set ss \<and> \<not> set (dependencies s) \<subseteq> dom (map_of g))"
proof (induction ss arbitrary: g)
  case Nil
  then show ?case by simp
next
  case (Cons s ss)
  show ?case
  proof (cases "pushDeps (sensor_id s) (dependencies s) g")
    case (Inl e)
    with pushDeps_error [of "sensor_id s" "dependencies s" g] show ?thesis by auto
  next
    case (Inr g1)
    with pushDeps_error [of "sensor_id s" "dependencies s" g]
    have ok: "set (dependencies s) \<subseteq> dom (map_of g)" by auto
    from pushDeps_dom [OF Inr] Cons.IH [of g1] Inr ok show ?thesis by auto
  qed
qed

lemma buildGraph_ok: "buildGraph sensors = Inr g \<Longrightarrow> graphOK sensors g"
proof -
  assume b: "buildGraph sensors = Inr g"
  have "valuesIn (emptyGraph sensors) (sensorIds sensors)"
    by (auto simp: valuesIn_def map_of_emptyGraph split: if_splits)
  with b have "valuesIn g (sensorIds sensors)"
    using pushAll_values [of sensors "emptyGraph sensors" g "sensorIds sensors"]
    by (simp add: buildGraph_def)
  then show ?thesis
    unfolding graphOK_def edge_def neighborsOf_def valuesIn_def
    by (auto split: option.splits) (metis subsetD)
qed

lemma buildGraph_error:
  "buildGraph sensors = Inl TypeError \<longleftrightarrow>
     (\<exists>s. s \<in> set sensors \<and> \<not> set (dependencies s) \<subseteq> sensorIds sensors)"
proof -
  have "dom (map_of (emptyGraph sensors)) = sensorIds sensors"
    by (auto simp: map_of_emptyGraph dom_def)
  with pushAll_error [of sensors "emptyGraph sensors"]
  have "(\<exists>e. buildGraph sensors = Inl e) \<longleftrightarrow>
     (\<exists>s. s \<in> set sensors \<and> \<not> set (dependencies s) \<subseteq> sensorIds sensors)"
    by (simp add: buildGraph_def)
  moreover have "(\<exists>e. buildGraph sensors = Inl e) \<longleftrightarrow> buildGraph sensors = Inl TypeError"
    by (metis error.exhaust)
  ultimately show ?thesis by simp
qed

subsection \<open>The initial state of the searches\<close>

text \<open>The initial state of the two searches.\<close>

lemma initRisks_aux:
  "foldl (\<lambda>m s. m(sensor_id s \<mapsto> Infinity)) m0 sensors w =
     (if w \<in> sensorIds sensors then Some Infinity else m0 w)"
  by (induction sensors arbitrary: m0) (auto simp: sensorIds_def)

lemma initRisks_eq:
  "initRisks sensors w = (if w \<in> sensorIds sensors then Some Infinity else None)"
  by (simp add: initRisks_def initRisks_aux)

lemma seedRoots_risks:
  "fst (seedRoots rs st) w = (if w \<in> set rs then Some (Num 0) else fst st w)"
  by (induction rs st rule: seedRoots.induct) auto

lemma seedRoots_queue:
  "set (snd (seedRoots rs st)) = set (snd st) \<union> (\<lambda>r. \<lparr>e_risk = 0, e_node = r, e_path = [r]\<rparr>) ` set rs"
  by (induction rs st rule: seedRoots.induct) (auto simp: enqueue_def)

lemma entryOK_root: "r \<in> R \<Longrightarrow> entryOK g rm R \<lparr>e_risk = 0, e_node = r, e_path = [r]\<rparr>"
  by (simp add: entryOK_def rootPath_single)

lemma searchInv_multi:
  assumes "graphOK sensors g"
  shows "searchInv B g rm (set roots)
     (fst (seedRoots roots (initRisks sensors, []))) {}
     (snd (seedRoots roots (initRisks sensors, [])))"
  unfolding searchInv_def
proof (intro conjI allI impI)
  fix e assume "e \<in> set (snd (seedRoots roots (initRisks sensors, [])))"
  then show "entryOK g rm (set roots) e"
    by (auto simp: seedRoots_queue entryOK_root)
next
  fix w d assume "fst (seedRoots roots (initRisks sensors, [])) w = Some (Num d)"
  then have "w \<in> set roots \<and> d = 0"
    by (auto simp: seedRoots_risks initRisks_eq split: if_splits)
  then show "\<exists>e. e \<in> set (snd (seedRoots roots (initRisks sensors, []))) \<and> e_node e = w \<and> e_risk e = d"
    by (auto simp: seedRoots_queue)
next
  fix r assume "r \<in> set roots"
  then show "\<exists>e. e \<in> set (snd (seedRoots roots (initRisks sensors, []))) \<and> e_node e = r \<and> (B \<longrightarrow> e_risk e \<le> 0)"
    by (auto simp: seedRoots_queue)
next
  fix u w assume "edge g u w"
  with assms have "w \<in> sensorIds sensors" by (auto simp: graphOK_def)
  then show "fst (seedRoots roots (initRisks sensors, [])) w \<noteq> None"
    by (simp add: seedRoots_risks initRisks_eq)
qed simp

lemma searchInv_single:
  assumes "graphOK sensors g"
  shows "searchInv B g rm {start} (initRisks sensors) {}
     (enqueue \<lparr>e_risk = 0, e_node = start, e_path = [start]\<rparr> [])"
  unfolding searchInv_def
proof (intro conjI allI impI)
  fix u w assume "edge g u w"
  with assms have "w \<in> sensorIds sensors" by (auto simp: graphOK_def)
  then show "initRisks sensors w \<noteq> None"
    by (simp add: initRisks_eq)
qed (auto simp: enqueue_def entryOK_root initRisks_eq split: if_splits)

lemma multiRootDijkstra_result:
  assumes "graphOK sensors g" and "B \<longrightarrow> nonNegative rm"
  shows "searchResult B g rm (set roots) tgt
     (searchLoop g rm tgt (fst (seedRoots roots (initRisks sensors, []))) {}
        (snd (seedRoots roots (initRisks sensors, []))))"
  by (rule searchLoop_correct [OF searchInv_multi [OF assms(1)] _ assms(2)]) simp

lemma dijkstra_result:
  assumes "graphOK sensors g" and "B \<longrightarrow> nonNegative rm"
  shows "searchResult B g rm {start} tgt
     (searchLoop g rm tgt (initRisks sensors) {} (enqueue \<lparr>e_risk = 0, e_node = start, e_path = [start]\<rparr> []))"
  by (rule searchLoop_correct [OF searchInv_single [OF assms(1)] _ assms(2)]) simp

subsection \<open>The choice among the roots\<close>

lemma rootsInv_step:
  assumes ok: "rootsInv search A (bp, br, broot)"
  shows "rootsInv search (insert r A)
     (case search r of
        None \<Rightarrow> (bp, br, broot)
      | Some result \<Rightarrow>
          if numLess (dist result) br \<or> (numEq (dist result) br \<and> r < orZero broot)
          then (Some (r_path result), Num (dist result), Some r)
          else (bp, br, broot))"
proof (cases "search r")
  case None
  with ok show ?thesis
    by (auto simp: rootsInv_def split: option.splits)
next
  case (Some res)
  show ?thesis
  proof (cases bp)
    case None
    with ok Some show ?thesis
      by (auto simp: rootsInv_def)
  next
    case bp: (Some p)
    with ok obtain r0 res0 where r0: "r0 \<in> A" "search r0 = Some res0" "p = r_path res0"
      "br = Num (dist res0)" "broot = Some r0"
      "\<forall>r' res'. r' \<in> A \<longrightarrow> search r' = Some res' \<longrightarrow> dist res0 \<le> dist res'"
      by (auto simp: rootsInv_def)
    show ?thesis
    proof (cases "dist res < dist res0 \<or> (dist res = dist res0 \<and> r < r0)")
      case True
      have "\<forall>r' res'. r' \<in> insert r A \<longrightarrow> search r' = Some res' \<longrightarrow> dist res \<le> dist res'"
        using True r0(6) Some by fastforce
      with True Some r0 show ?thesis
        by (auto simp: rootsInv_def orZero_def)
    next
      case False
      have "\<forall>r' res'. r' \<in> insert r A \<longrightarrow> search r' = Some res' \<longrightarrow> dist res0 \<le> dist res'"
        using False r0(6) Some by fastforce
      with False Some r0 bp show ?thesis
        by (auto simp: rootsInv_def orZero_def)
    qed
  qed
qed

lemma rootsInv_scan:
  "rootsInv search A st \<Longrightarrow> rootsInv search (A \<union> set rs) (scanRoots search rs st)"
proof (induction rs arbitrary: st A)
  case Nil
  then show ?case by simp
next
  case (Cons r rs)
  obtain bp br broot where st: "st = (bp, br, broot)" by (cases st)
  from rootsInv_step [of search A bp br broot r] Cons.prems st
  have "rootsInv search (insert r A)
     (case search r of
        None \<Rightarrow> (bp, br, broot)
      | Some result \<Rightarrow>
          if numLess (dist result) br \<or> (numEq (dist result) br \<and> r < orZero broot)
          then (Some (r_path result), Num (dist result), Some r)
          else (bp, br, broot))" by simp
  from Cons.IH [OF this] show ?case
    by (cases "search r") (auto simp: st split: if_splits)
qed

lemma findBestPathToTarget_cases:
  "(findBestPathToTarget sensors g roots rm tgt = None \<and>
      (\<forall>r. r \<in> set roots \<longrightarrow> dijkstra sensors g rm r tgt = None)) \<or>
   (\<exists>r res. r \<in> set roots \<and> dijkstra sensors g rm r tgt = Some res \<and>
      findBestPathToTarget sensors g roots rm tgt =
        Some \<lparr>target = tgt, path = r_path res, risk = dist res, root = r\<rparr> \<and>
      (\<forall>r' res'. r' \<in> set roots \<longrightarrow> dijkstra sensors g rm r' tgt = Some res' \<longrightarrow> dist res \<le> dist res'))"
proof -
  let ?search = "\<lambda>r. dijkstra sensors g rm r tgt"
  have "rootsInv ?search {} (None, Infinity, None)" by (simp add: rootsInv_def)
  from rootsInv_scan [OF this, of roots]
  have ok: "rootsInv ?search (set roots) (scanRoots ?search roots (None, Infinity, None))" by simp
  obtain bp br broot where st: "scanRoots ?search roots (None, Infinity, None) = (bp, br, broot)"
    by (cases "scanRoots ?search roots (None, Infinity, None)")
  show ?thesis
  proof (cases bp)
    case None
    with ok st show ?thesis
      by (auto simp: rootsInv_def findBestPathToTarget_def)
  next
    case (Some p)
    with ok st show ?thesis
      by (auto simp: rootsInv_def findBestPathToTarget_def orZero_def)
  qed
qed

subsection \<open>Least risk\<close>

lemma rootPath_mono: "rootPath g R t p \<Longrightarrow> R \<subseteq> R' \<Longrightarrow> rootPath g R' t p"
  by (auto simp: rootPath_def)

lemma rootPath_hd: "rootPath g R t p \<Longrightarrow> rootPath g {hd p} t p \<and> hd p \<in> R"
  by (auto simp: rootPath_def)

lemma multiRootDijkstra_minimum:
  assumes ok: "graphOK sensors g" and nn: "nonNegative rm" and reach: "rootPath g (set roots) tgt q"
  shows "\<exists>info. multiRootDijkstra sensors g roots rm tgt = Some info \<and>
     target info = tgt \<and> minimumRiskPath g rm (set roots) tgt (path info) (risk info)"
proof -
  from multiRootDijkstra_result [OF ok, of True rm roots tgt] nn
  have res: "searchResult True g rm (set roots) tgt
     (searchLoop g rm tgt (fst (seedRoots roots (initRisks sensors, []))) {}
        (snd (seedRoots roots (initRisks sensors, []))))" by simp
  with reach show ?thesis
    by (auto simp: searchResult_def multiRootDijkstra_def minimumRiskPath_def entryOK_def
        split: option.splits)
qed

lemma dijkstra_minimum:
  assumes ok: "graphOK sensors g" and nn: "nonNegative rm" and reach: "rootPath g {start} tgt q"
  shows "\<exists>res. dijkstra sensors g rm start tgt = Some res \<and>
     minimumRiskPath g rm {start} tgt (r_path res) (dist res)"
proof -
  from dijkstra_result [OF ok, of True rm start tgt] nn
  have res: "searchResult True g rm {start} tgt
     (searchLoop g rm tgt (initRisks sensors) {} (enqueue \<lparr>e_risk = 0, e_node = start, e_path = [start]\<rparr> []))"
    by simp
  with reach show ?thesis
    by (auto simp: searchResult_def dijkstra_def minimumRiskPath_def entryOK_def
        split: option.splits)
qed

lemma dijkstra_sound:
  assumes ok: "graphOK sensors g" and some: "dijkstra sensors g rm start tgt = Some res"
  shows "rootPath g {start} tgt (r_path res) \<and> dist res = pathRisk rm (r_path res)"
proof -
  from dijkstra_result [OF ok, of False rm start tgt] some show ?thesis
    by (auto simp: searchResult_def dijkstra_def entryOK_def split: option.splits)
qed

lemma findBestPathToTarget_minimum:
  assumes ok: "graphOK sensors g" and nn: "nonNegative rm" and reach: "rootPath g (set roots) tgt q"
  shows "\<exists>info. findBestPathToTarget sensors g roots rm tgt = Some info \<and>
     target info = tgt \<and> minimumRiskPath g rm (set roots) tgt (path info) (risk info)"
proof -
  from rootPath_hd [OF reach] have q1: "rootPath g {hd q} tgt q" and hq: "hd q \<in> set roots" by simp_all
  from dijkstra_minimum [OF ok nn q1] obtain res0 where
    res0: "dijkstra sensors g rm (hd q) tgt = Some res0" by blast
  from findBestPathToTarget_cases [of sensors g roots rm tgt] res0 hq
  obtain r res where r: "r \<in> set roots" "dijkstra sensors g rm r tgt = Some res"
    "findBestPathToTarget sensors g roots rm tgt =
        Some \<lparr>target = tgt, path = r_path res, risk = dist res, root = r\<rparr>"
    "\<forall>r' res'. r' \<in> set roots \<longrightarrow> dijkstra sensors g rm r' tgt = Some res' \<longrightarrow> dist res \<le> dist res'"
    by auto
  from dijkstra_sound [OF ok r(2)] have snd: "rootPath g {r} tgt (r_path res)"
    "dist res = pathRisk rm (r_path res)" by simp_all
  have "\<forall>p. rootPath g (set roots) tgt p \<longrightarrow> dist res \<le> pathRisk rm p"
  proof (intro allI impI)
    fix p assume p: "rootPath g (set roots) tgt p"
    from rootPath_hd [OF p] have p1: "rootPath g {hd p} tgt p" and hp: "hd p \<in> set roots" by simp_all
    from dijkstra_minimum [OF ok nn p1] p1 obtain res' where
      res': "dijkstra sensors g rm (hd p) tgt = Some res'" "dist res' \<le> pathRisk rm p"
      unfolding minimumRiskPath_def by blast
    with r(4) hp show "dist res \<le> pathRisk rm p" by fastforce
  qed
  with snd r(1) rootPath_mono [OF snd(1), of "set roots"] r(3) show ?thesis
    by (simp add: minimumRiskPath_def)
qed

subsection \<open>Evaluation of the example inputs\<close>

lemma tieGraph_built: "buildGraph tieSensors = Inr tieGraph"
  by (simp add: buildGraph_def emptyGraph_def tieSensors_def tieGraph_def mkSensor_def)


lemma tieRoots: "rootsOf tieSensors = [0, 1]"
  by (simp add: rootsOf_def tieSensors_def mkSensor_def)



lemma zeroGraph_built: "buildGraph zeroSensors = Inr zeroGraph"
  by (simp add: buildGraph_def emptyGraph_def zeroSensors_def zeroGraph_def mkSensor_def)

lemma zeroRoots: "rootsOf zeroSensors = [0]"
  by (simp add: rootsOf_def zeroSensors_def mkSensor_def)

lemma zeroChoice:
  "chooseTarget (multiRootDijkstra zeroSensors zeroGraph [0] (buildRiskMap zeroRisks)) [2, 3] =
     Some \<lparr>target = 2, path = [0, 1, 2], risk = 15\<rparr>"
  by code_simp

lemma tieChoice:
  "chooseTarget (multiRootDijkstra tieSensors tieGraph [0, 1] (buildRiskMap tieRisks)) [2] =
     Some \<lparr>target = 2, path = [0, 2], risk = 5\<rparr>"
  by code_simp

lemma tieChoice_perRoot:
  "chooseTarget (findBestPathToTarget tieSensors tieGraph [0, 1] (buildRiskMap tieRisks)) [2] =
     Some \<lparr>target = 2, path = [0, 2], risk = 5, root = 0\<rparr>"
  by code_simp

lemma getRisk_scan_eq: "getRisk (map_of store) from to = getRisk_scan store from to"
  by (simp add: getRisk_def getRisk_scan_def)

subsection \<open>The outer loop and the risk store\<close>

lemma solveLoop_iteration:
  "solveLoop sensors g roots rm remaining paths =
     (case iteration sensors g roots (rm, remaining, paths) of
        None \<Rightarrow> paths
      | Some (rm', remaining', paths') \<Rightarrow> solveLoop sensors g roots rm' remaining' paths')"
  by (subst solveLoop.simps) (simp add: iteration_def split: option.splits)

lemma setRisk_apply: "setRisk rm a b v k = (if k = (a, b) then Some v else rm k)"
  by (simp add: setRisk_def)

lemma zeroPath_eq: "zeroPath rm p (a, b) = (if onPath p a b then Some 0 else rm (a, b))"
proof (induction rm p rule: zeroPath.induct)
  case (1 rm x y rest)
  have "zeroPath rm (x # y # rest) (a, b) = zeroPath (setRisk rm x y 0) (y # rest) (a, b)"
    by simp
  also have "\<dots> = (if onPath (y # rest) a b then Some 0 else setRisk rm x y 0 (a, b))"
    by (rule "1.IH")
  also have "\<dots> = (if onPath (x # y # rest) a b then Some 0 else rm (a, b))"
    by (auto simp: onPath_def setRisk_apply)
  finally show ?case .
next
  case (2 rm x)
  show ?case by (simp add: onPath_def)
next
  case (3 rm)
  show ?case by (simp add: onPath_def)
qed

lemma getRisk_zeroPath_on: "onPath p a b \<Longrightarrow> getRisk (zeroPath rm p) a b = 0"
  by (simp add: getRisk_def zeroPath_eq)

lemma getRisk_zeroPath_keep: "getRisk rm a b = 0 \<Longrightarrow> getRisk (zeroPath rm p) a b = 0"
  by (simp add: getRisk_def zeroPath_eq)

lemma iteration_keeps_zero:
  "iteration sensors g roots (rm, remaining, paths) = Some (rm', remaining', paths') \<Longrightarrow>
     getRisk rm a b = 0 \<Longrightarrow> getRisk rm' a b = 0"
  by (auto simp: iteration_def getRisk_zeroPath_keep split: if_splits option.splits)

lemma iterations_keep_zero:
  "iterations sensors g roots n st = Some st' \<Longrightarrow> getRisk (fst st) a b = 0 \<Longrightarrow> getRisk (fst st') a b = 0"
proof (induction n arbitrary: st)
  case 0
  then show ?case by simp
next
  case (Suc n)
  from Suc.prems(1) obtain st1 where st1: "iteration sensors g roots st = Some st1"
    and rest: "iterations sensors g roots n st1 = Some st'"
    by (auto split: option.splits)
  have "getRisk (fst st1) a b = 0"
    using iteration_keeps_zero [of sensors g roots "fst st" "fst (snd st)" "snd (snd st)"
        "fst st1" "fst (snd st1)" "snd (snd st1)" a b] st1 Suc.prems(2)
    by simp
  from Suc.IH [OF rest this] show ?case .
qed

lemma zeroIteration:
  "iteration zeroSensors zeroGraph [0] (buildRiskMap zeroRisks, [2, 3], []) =
     Some (zeroPath (buildRiskMap zeroRisks) [0, 1, 2], [3], [[0, 1, 2]])"
  by (simp add: iteration_def zeroChoice)

subsection \<open>The trace of the outer loop\<close>

lemma solveLoop_trace:
  "solveLoop sensors g roots rm remaining paths =
     paths @ map (\<lambda>x. path (snd x)) (solveTrace sensors g roots rm remaining)"
proof (induction sensors g roots rm remaining paths rule: solveLoop.induct)
  case (1 sensors g roots rm remaining paths)
  show ?case
  proof (cases "remaining = []")
    case True
    then show ?thesis
      by (subst solveLoop.simps, subst solveTrace.simps) simp
  next
    case ne: False
    show ?thesis
    proof (cases "chooseTarget (multiRootDijkstra sensors g roots rm) remaining")
      case None
      with ne show ?thesis
        by (subst solveLoop.simps, subst solveTrace.simps) simp
    next
      case (Some w)
      from "1.IH" [OF ne Some] ne Some show ?thesis
        by (subst solveLoop.simps, subst solveTrace.simps) simp
    qed
  qed
qed

lemma solveHeist_resolutions:
  "solveHeist sensors risks targetSensors =
     (case resolutions sensors risks targetSensors of
        Inl e \<Rightarrow> Inl e
      | Inr tr \<Rightarrow> Inr (map (\<lambda>x. path (snd x)) tr))"
  by (simp add: solveHeist_def resolutions_def solveLoop_trace split: sum.splits)

lemma solveTrace_Cons:
  assumes "solveTrace sensors g roots rm remaining = x # rest"
  shows "fst x = rm"
    and "chooseTarget (multiRootDijkstra sensors g roots rm) remaining = Some (snd x)"
    and "rest = solveTrace sensors g roots (zeroPath rm (path (snd x))) (removeAll (target (snd x)) remaining)"
  using assms
  by (auto simp: solveTrace.simps [of sensors g roots rm remaining] split: if_splits option.splits)

lemma solveTrace_Nil:
  assumes "solveTrace sensors g roots rm remaining = []"
  shows "chooseTarget (multiRootDijkstra sensors g roots rm) remaining = None"
  using assms
  by (auto simp: solveTrace.simps [of sensors g roots rm remaining] chooseTarget_def
      split: if_splits option.splits)

text \<open>Whether a search finds a path depends on the graph alone.\<close>

lemma multiRootDijkstra_sound:
  assumes ok: "graphOK sensors g" and some: "multiRootDijkstra sensors g roots rm t = Some i"
  shows "target i = t" and "rootPath g (set roots) t (path i)" and "risk i = pathRisk rm (path i)"
proof -
  from multiRootDijkstra_result [OF ok, of False rm roots t] some
  show "target i = t" and "rootPath g (set roots) t (path i)" and "risk i = pathRisk rm (path i)"
    by (auto simp: searchResult_def multiRootDijkstra_def entryOK_def split: option.splits)
qed

lemma multiRootDijkstra_None:
  assumes ok: "graphOK sensors g"
  shows "multiRootDijkstra sensors g roots rm t = None \<longleftrightarrow> \<not> reachable g roots t"
proof
  assume "multiRootDijkstra sensors g roots rm t = None"
  with multiRootDijkstra_result [OF ok, of False rm roots t] show "\<not> reachable g roots t"
    by (auto simp: searchResult_def multiRootDijkstra_def reachable_def split: option.splits)
next
  assume nr: "\<not> reachable g roots t"
  show "multiRootDijkstra sensors g roots rm t = None"
  proof (cases "multiRootDijkstra sensors g roots rm t")
    case None
    then show ?thesis .
  next
    case (Some i)
    from multiRootDijkstra_sound(2) [OF ok Some] nr show ?thesis by (auto simp: reachable_def)
  qed
qed

lemma solveTrace_targets:
  "graphOK sensors g \<Longrightarrow>
     distinct (map (\<lambda>x. target (snd x)) (solveTrace sensors g roots rm remaining)) \<and>
     set (map (\<lambda>x. target (snd x)) (solveTrace sensors g roots rm remaining)) =
       {t \<in> set remaining. reachable g roots t}"
proof (induction sensors g roots rm remaining rule: solveTrace.induct)
  case (1 sensors g roots rm remaining)
  note ok = "1.prems"
  let ?search = "multiRootDijkstra sensors g roots rm"
  show ?case
  proof (cases "remaining = []")
    case True
    then show ?thesis by (subst (1 2) solveTrace.simps) simp
  next
    case ne: False
    show ?thesis
    proof (cases "chooseTarget ?search remaining")
      case None
      have "\<not> reachable g roots t" if "t \<in> set remaining" for t
        using chooseTarget_best(2) [OF _ None that] multiRootDijkstra_target
          multiRootDijkstra_None [OF ok, of roots rm t] by blast
      with ne None show ?thesis by (subst (1 2) solveTrace.simps) auto
    next
      case (Some w)
      have best: "bestAmong ?search (set remaining) w"
        using chooseTarget_best(1) [OF _ Some] multiRootDijkstra_target by blast
      then have wr: "target w \<in> set remaining" and ws: "?search (target w) = Some w"
        by (simp_all add: bestAmong_def)
      from multiRootDijkstra_sound(2) [OF ok ws] have reach: "reachable g roots (target w)"
        by (auto simp: reachable_def)
      let ?rest = "solveTrace sensors g roots (zeroPath rm (path w)) (removeAll (target w) remaining)"
      from "1.IH" [OF ne Some ok]
      have d: "distinct (map (\<lambda>x. target (snd x)) ?rest)"
        and s: "set (map (\<lambda>x. target (snd x)) ?rest) = {t \<in> set (removeAll (target w) remaining). reachable g roots t}"
        by simp_all
      have eq: "solveTrace sensors g roots rm remaining = (rm, w) # ?rest"
        using ne Some by (subst solveTrace.simps) simp
      from s have notin: "target w \<notin> set (map (\<lambda>x. target (snd x)) ?rest)" by simp
      have "set (map (\<lambda>x. target (snd x)) ((rm, w) # ?rest)) = {t \<in> set remaining. reachable g roots t}"
        using s wr reach by auto
      with d notin eq show ?thesis by simp
    qed
  qed
qed

lemma solveTrace_sound:
  "graphOK sensors g \<Longrightarrow> x \<in> set (solveTrace sensors g roots rm remaining) \<Longrightarrow>
     rootPath g (set roots) (target (snd x)) (path (snd x)) \<and> target (snd x) \<in> set remaining"
proof (induction sensors g roots rm remaining rule: solveTrace.induct)
  case (1 sensors g roots rm remaining)
  note ok = "1.prems"(1)
  let ?search = "multiRootDijkstra sensors g roots rm"
  from "1.prems"(2) have ne: "remaining \<noteq> []"
    by (auto simp: solveTrace.simps [of sensors g roots rm remaining])
  from "1.prems"(2) ne obtain w where Some: "chooseTarget ?search remaining = Some w"
    by (cases "chooseTarget ?search remaining")
      (auto simp: solveTrace.simps [of sensors g roots rm remaining])
  let ?rest = "solveTrace sensors g roots (zeroPath rm (path w)) (removeAll (target w) remaining)"
  have eq: "solveTrace sensors g roots rm remaining = (rm, w) # ?rest"
    using ne Some by (subst solveTrace.simps) simp
  have best: "bestAmong ?search (set remaining) w"
    using chooseTarget_best(1) [OF _ Some] multiRootDijkstra_target by blast
  then have wr: "target w \<in> set remaining" and ws: "?search (target w) = Some w"
    by (simp_all add: bestAmong_def)
  from "1.prems"(2) eq consider "x = (rm, w)" | "x \<in> set ?rest" by auto
  then show ?case
  proof cases
    case 1
    with multiRootDijkstra_sound(2) [OF ok ws] wr show ?thesis by simp
  next
    case 2
    from "1.IH" [OF ne Some ok 2] show ?thesis by auto
  qed
qed

lemma newSet_aux:
  "distinct acc \<Longrightarrow>
     distinct (foldl (\<lambda>acc x. if x \<in> set acc then acc else acc @ [x]) acc xs) \<and>
     set (foldl (\<lambda>acc x. if x \<in> set acc then acc else acc @ [x]) acc xs) = set acc \<union> set xs"
  by (induction xs arbitrary: acc) auto

lemma distinct_newSet: "distinct (newSet xs)"
  using newSet_aux [of "[]" xs] by (simp add: newSet_def)

lemma set_newSet: "set (newSet xs) = set xs"
  using newSet_aux [of "[]" xs] by (simp add: newSet_def)

lemma map_last_trace:
  assumes "graphOK sensors g"
  shows "map last (map (\<lambda>x. path (snd x)) (solveTrace sensors g roots rm remaining)) =
     map (\<lambda>x. target (snd x)) (solveTrace sensors g roots rm remaining)"
  using solveTrace_sound [OF assms, of _ roots rm remaining]
  by (auto simp: rootPath_def)




text \<open>The per-root copy: what its outer loop appends.\<close>

lemma findBestPathToTarget_sound:
  assumes ok: "graphOK sensors g" and some: "findBestPathToTarget sensors g roots rm t = Some i"
  shows "rootPath g (set roots) t (path i)"
proof -
  from findBestPathToTarget_cases [of sensors g roots rm t] some
  obtain r res where r: "r \<in> set roots" "dijkstra sensors g rm r t = Some res" "path i = r_path res"
    by auto
  from dijkstra_sound [OF ok r(2)] have "rootPath g {r} t (r_path res)" by simp
  from rootPath_mono [OF this, of "set roots"] r(1,3) show ?thesis by simp
qed

lemma solveLoop_perRoot_targets:
  "graphOK sensors g \<Longrightarrow>
     \<exists>new. solveLoop_perRoot sensors g roots rm remaining paths = paths @ new \<and>
       distinct (map last new) \<and> set (map last new) \<subseteq> set remaining \<and> [] \<notin> set new"
proof (induction sensors g roots rm remaining paths rule: solveLoop_perRoot.induct)
  case (1 sensors g roots rm remaining paths)
  note ok = "1.prems"
  let ?search = "findBestPathToTarget sensors g roots rm"
  show ?case
  proof (cases "remaining = []")
    case True
    then have "solveLoop_perRoot sensors g roots rm remaining paths = paths @ []"
      by (subst solveLoop_perRoot.simps) simp
    then show ?thesis by (intro exI [of _ "[]"]) simp
  next
    case ne: False
    show ?thesis
    proof (cases "chooseTarget ?search remaining")
      case None
      with ne have "solveLoop_perRoot sensors g roots rm remaining paths = paths @ []"
        by (subst solveLoop_perRoot.simps) simp
      then show ?thesis by (intro exI [of _ "[]"]) simp
    next
      case (Some v)
      have best: "bestAmong ?search (set remaining) v"
        using chooseTarget_best(1) [OF _ Some] findBestPathToTarget_target by blast
      then have vr: "target v \<in> set remaining" and vs: "?search (target v) = Some v"
        by (simp_all add: bestAmong_def)
      from findBestPathToTarget_sound [OF ok vs] have pv: "path v \<noteq> []" "last (path v) = target v"
        by (simp_all add: rootPath_def)
      from "1.IH" [OF ne Some ok] obtain new where
        new: "solveLoop_perRoot sensors g roots (zeroPath rm (path v)) (removeAll (target v) remaining)
                (paths @ [path v]) = (paths @ [path v]) @ new"
          "distinct (map last new)" "set (map last new) \<subseteq> set (removeAll (target v) remaining)"
          "[] \<notin> set new" by blast
      have eq: "solveLoop_perRoot sensors g roots rm remaining paths = paths @ (path v # new)"
        using ne Some new(1) by (subst solveLoop_perRoot.simps) simp
      have "distinct (map last (path v # new))" using new(2,3) pv(2) by auto
      moreover have "set (map last (path v # new)) \<subseteq> set remaining" using new(3) pv(2) vr by auto
      moreover have "[] \<notin> set (path v # new)" using new(4) pv(1) by auto
      ultimately show ?thesis using eq by blast
    qed
  qed
qed

lemma tieRunDup: "solveHeist tieSensors tieRisks [2, 2] = Inr [[0, 2]]"
  by code_simp

lemma tieRunDup_perRoot: "solveHeist_perRoot tieSensors tieRisks [2, 2] = Inr [[0, 2]]"
  by code_simp

lemma zeroTrace:
  "map snd (solveTrace zeroSensors zeroGraph [0] (buildRiskMap zeroRisks) (newSet [2, 3])) =
     [\<lparr>target = 2, path = [0, 1, 2], risk = 15\<rparr>, \<lparr>target = 3, path = [0, 1, 3], risk = 5\<rparr>]"
  by code_simp

lemma solveTrace_later:
  assumes ok: "graphOK sensors g"
    and tr: "solveTrace sensors g roots rm remaining = x # rest"
    and y: "y \<in> set rest"
  shows "\<exists>info. multiRootDijkstra sensors g roots (fst x) (target (snd y)) = Some info \<and>
     (risk (snd x) < risk info \<or> (risk (snd x) = risk info \<and> target (snd x) < target (snd y)))"
proof -
  let ?search = "multiRootDijkstra sensors g roots rm"
  note c = solveTrace_Cons [OF tr]
  have best: "bestAmong ?search (set remaining) (snd x)"
    using chooseTarget_best(1) [OF _ c(2)] multiRootDijkstra_target by blast
  from solveTrace_sound [OF ok, of y roots "zeroPath rm (path (snd x))" "removeAll (target (snd x)) remaining"]
    y c(3)
  have rp: "rootPath g (set roots) (target (snd y)) (path (snd y))"
    and mem: "target (snd y) \<in> set (removeAll (target (snd x)) remaining)" by simp_all
  from mem have yr: "target (snd y) \<in> set remaining" and ne: "target (snd y) \<noteq> target (snd x)"
    by simp_all
  from rp have "reachable g roots (target (snd y))" by (auto simp: reachable_def)
  with multiRootDijkstra_None [OF ok, of roots rm "target (snd y)"]
  obtain info where info: "?search (target (snd y)) = Some info" by auto
  with best yr have "risk (snd x) < risk info \<or> (risk (snd x) = risk info \<and> target (snd x) \<le> target (snd y))"
    by (simp add: bestAmong_def)
  with ne info c(1) show ?thesis by auto
qed

lemma solveTrace_order:
  "graphOK sensors g \<Longrightarrow> tr = solveTrace sensors g roots rm remaining \<Longrightarrow> i < j \<Longrightarrow> j < length tr \<Longrightarrow>
     \<exists>info. multiRootDijkstra sensors g roots (fst (tr ! i)) (target (snd (tr ! j))) = Some info \<and>
       (risk (snd (tr ! i)) < risk info \<or>
        (risk (snd (tr ! i)) = risk info \<and> target (snd (tr ! i)) < target (snd (tr ! j))))"
proof (induction i arbitrary: tr j rm remaining)
  case 0
  from "0.prems"(3,4) obtain x rest where tr: "tr = x # rest" by (cases tr) auto
  with "0.prems"(3,4) have "tr ! j \<in> set rest" by (cases j) auto
  from solveTrace_later [OF "0.prems"(1) _ this, of roots rm remaining x] tr "0.prems"(2)
  show ?case by simp
next
  case (Suc i)
  from Suc.prems(3,4) obtain x rest where tr: "tr = x # rest" by (cases tr) auto
  from Suc.prems(3) obtain j' where j: "j = Suc j'" by (cases j) auto
  from tr Suc.prems(2) have "solveTrace sensors g roots rm remaining = x # rest" by simp
  note c = solveTrace_Cons [OF this]
  from Suc.IH [OF Suc.prems(1) c(3), of j'] Suc.prems(3,4) tr j show ?case by simp
qed

lemma danglingUnknown: "unknownDependency danglingSensors"
  by (auto simp: unknownDependency_def danglingSensors_def mkSensor_def sensorIds_def)

lemma nineRun: "solveHeist nineSensors nineRisks [11] = Inr [[10, 11]]"
  by code_simp

lemma nineRun_perRoot: "solveHeist_perRoot nineSensors nineRisks [11] = Inr [[9, 11]]"
  by code_simp

lemma nineGraph_built: "buildGraph nineSensors = Inr nineGraph"
  by (simp add: buildGraph_def emptyGraph_def nineSensors_def nineGraph_def mkSensor_def)

lemma nineRoots: "rootsOf nineSensors = [9, 10]"
  by (simp add: rootsOf_def nineSensors_def mkSensor_def)

lemma forkRoots: "rootsOf forkSensors = [0]"
  by (simp add: rootsOf_def forkSensors_def mkSensor_def)

lemma forkRun: "solveHeist forkSensors forkRisks [11] = Inr [[0, 10, 11]]"
  by code_simp

lemma forkRun_perRoot: "solveHeist_perRoot forkSensors forkRisks [11] = Inr [[0, 10, 11]]"
  by code_simp

lemma tieRun: "solveHeist tieSensors tieRisks [2] = Inr [[0, 2]]"
  by code_simp

subsection \<open>The comparator is a linear order on queue entries\<close>

lemma digitChar_inj: "a < 10 \<Longrightarrow> b < 10 \<Longrightarrow> digitChar a = digitChar b \<Longrightarrow> a = b"
proof -
  assume a: "a < 10" and b: "b < 10" and eq: "digitChar a = digitChar b"
  have d: "distinct ''0123456789''" by simp
  have l: "length ''0123456789'' = 10" by simp
  from nth_eq_iff_index_eq [OF d, of a b] a b eq l show "a = b"
    by (simp add: digitChar_def)
qed

lemma digitChar_no_comma: "a < 10 \<Longrightarrow> digitChar a \<noteq> CHR '',''"
proof -
  assume "a < 10"
  then have "a \<in> {0, 1, 2, 3, 4, 5, 6, 7, 8, 9}" by auto
  then show ?thesis by (auto simp: digitChar_def)
qed

lemma toString_nonempty: "toString n \<noteq> []"
  by (subst toString.simps) simp

lemma toString_no_comma: "CHR '','' \<notin> set (toString n)"
proof (induction n rule: toString.induct)
  case (1 n)
  show ?case
  proof (cases "n < 10")
    case True
    then show ?thesis using digitChar_no_comma [of n] by (subst toString.simps) auto
  next
    case False
    have "n mod 10 < 10" by simp
    with "1.IH" [OF False] False digitChar_no_comma [of "n mod 10"] show ?thesis
      by (subst toString.simps) auto
  qed
qed

lemma toString_inj: "toString n = toString m \<Longrightarrow> n = m"
proof (induction n arbitrary: m rule: toString.induct)
  case (1 n)
  show ?case
  proof (cases "n < 10")
    case n: True
    show ?thesis
    proof (cases "m < 10")
      case True
      with n "1.prems" digitChar_inj [of n m] show ?thesis
        by (simp add: toString.simps [of n] toString.simps [of m])
    next
      case False
      with n "1.prems" toString_nonempty [of "m div 10"] show ?thesis
        by (simp add: toString.simps [of n] toString.simps [of m])
    qed
  next
    case n: False
    show ?thesis
    proof (cases "m < 10")
      case True
      with n "1.prems" toString_nonempty [of "n div 10"] show ?thesis
        by (simp add: toString.simps [of n] toString.simps [of m])
    next
      case False
      with n "1.prems" have a: "toString (n div 10) = toString (m div 10)"
        and b: "digitChar (n mod 10) = digitChar (m mod 10)"
        by (simp_all add: toString.simps [of n] toString.simps [of m])
      from "1.IH" [OF n a] have "n div 10 = m div 10" .
      moreover from digitChar_inj [OF _ _ b] have "n mod 10 = m mod 10" by simp
      ultimately show ?thesis by (metis div_mult_mod_eq)
    qed
  qed
qed

lemma join_Cons: "join (x # xs) = toString x @ (if xs = [] then [] else CHR '','' # join xs)"
  by (cases xs) simp_all

lemma split_at_comma:
  "CHR '','' \<notin> set a \<Longrightarrow> CHR '','' \<notin> set b \<Longrightarrow> a @ r = b @ s \<Longrightarrow>
     (r = [] \<or> hd r = CHR '','') \<Longrightarrow> (s = [] \<or> hd s = CHR '','') \<Longrightarrow> a = b \<and> r = s"
proof (induction a arbitrary: b)
  case Nil
  then show ?case by (cases b) auto
next
  case (Cons c a)
  show ?case
  proof (cases b)
    case Nil
    with Cons.prems show ?thesis by auto
  next
    case (Cons d b')
    with Cons.prems Cons.IH [of b'] show ?thesis by auto
  qed
qed

lemma join_inj: "join xs = join ys \<Longrightarrow> xs = ys"
proof (induction xs arbitrary: ys)
  case Nil
  then show ?case using toString_nonempty by (cases ys) (auto simp: join_Cons)
next
  case (Cons x xs)
  show ?case
  proof (cases ys)
    case Nil
    with Cons.prems toString_nonempty show ?thesis by (auto simp: join_Cons)
  next
    case (Cons y ys')
    let ?r = "if xs = [] then [] else CHR '','' # join xs"
    let ?s = "if ys' = [] then [] else CHR '','' # join ys'"
    from Cons.prems Cons have eq: "toString x @ ?r = toString y @ ?s"
      by (simp only: join_Cons)
    have "toString x = toString y \<and> ?r = ?s"
      by (rule split_at_comma [OF toString_no_comma toString_no_comma eq]) auto
    then have xy: "x = y" and rs: "?r = ?s" using toString_inj by auto
    from rs have "xs = ys'"
      using Cons.IH [of ys'] by (auto split: if_splits)
    with xy Cons show ?thesis by simp
  qed
qed

lemma localeCompare_range: "localeCompare s t \<in> {-1, 0, 1}"
  by (induction s t rule: localeCompare.induct) auto

lemma localeCompare_eq: "localeCompare s t = 0 \<longleftrightarrow> s = t"
  by (induction s t rule: localeCompare.induct) auto

lemma localeCompare_swap: "localeCompare t s = - localeCompare s t"
  by (induction s t rule: localeCompare.induct) (auto simp: of_char_eq_iff)

lemma localeCompare_trans:
  "localeCompare s t \<le> 0 \<Longrightarrow> localeCompare t u \<le> 0 \<Longrightarrow> localeCompare s u \<le> 0"
proof (induction s t arbitrary: u rule: localeCompare.induct)
  case 1
  then show ?case by simp
next
  case (2 y ys)
  then show ?case by (cases u) auto
next
  case (3 x xs)
  then show ?case by simp
next
  case (4 x xs y ys)
  show ?case
  proof (cases u)
    case Nil
    with "4.prems" show ?thesis by simp
  next
    case (Cons z zs)
    with "4.prems" "4.IH" [of zs] show ?thesis
      by (auto split: if_splits)
  qed
qed

lemma compare_antisym:
  assumes "compare a b \<le> 0" and "compare b a \<le> 0" and "wellFormed a" and "wellFormed b"
  shows "a = b"
proof -
  from assms(1,2) have r: "e_risk a = e_risk b"
    by (auto simp: compare_def split: if_splits)
  with assms(1,2) have "localeCompare (join (e_path a)) (join (e_path b)) \<le> 0"
    "localeCompare (join (e_path b)) (join (e_path a)) \<le> 0"
    by (simp_all add: compare_def)
  with localeCompare_swap [of "join (e_path b)" "join (e_path a)"]
  have "localeCompare (join (e_path a)) (join (e_path b)) = 0" by simp
  then have p: "e_path a = e_path b" by (simp add: localeCompare_eq join_inj)
  with assms(3,4) have "e_node a = e_node b" by (simp add: wellFormed_def)
  with r p show ?thesis by simp
qed

lemma compare_total: "compare a b \<le> 0 \<or> compare b a \<le> 0"
  using localeCompare_swap [of "join (e_path b)" "join (e_path a)"]
  by (auto simp: compare_def)

lemma compare_trans: "compare a b \<le> 0 \<Longrightarrow> compare b c \<le> 0 \<Longrightarrow> compare a c \<le> 0"
  using localeCompare_trans [of "join (e_path a)" "join (e_path b)" "join (e_path c)"]
  by (auto simp: compare_def split: if_splits)

lemma compare_refl: "compare a a \<le> 0"
  using localeCompare_eq [of "join (e_path a)" "join (e_path a)"] by (simp add: compare_def)

lemma compare_swap: "compare b a \<le> 0 \<longleftrightarrow> 0 \<le> compare a b"
  using localeCompare_swap [of "join (e_path b)" "join (e_path a)"]
  by (auto simp: compare_def)

lemma front_isLeast: "isLeast (m # xs) (front m xs)"
proof -
  have "\<forall>x. x \<in> set (m # xs) \<longrightarrow> compare (front m xs) x \<le> 0"
  proof (induction xs arbitrary: m)
    case Nil
    show ?case by (simp add: compare_refl)
  next
    case (Cons y ys)
    let ?m = "if compare y m < 0 then y else m"
    have m: "compare ?m m \<le> 0" by (simp add: compare_refl)
    have y: "compare ?m y \<le> 0" using compare_swap [of m y] by (auto simp: compare_refl)
    from Cons.IH [of ?m] have ih: "\<forall>x. x \<in> set (?m # ys) \<longrightarrow> compare (front ?m ys) x \<le> 0" .
    then have f: "compare (front ?m ys) ?m \<le> 0" by simp
    show ?case
    proof (intro allI impI)
      fix x assume "x \<in> set (m # y # ys)"
      then consider "x = m" | "x = y" | "x \<in> set ys" by auto
      then show "compare (front m (y # ys)) x \<le> 0"
      proof cases
        case 1
        with compare_trans [OF f m] show ?thesis by simp
      next
        case 2
        with compare_trans [OF f y] show ?thesis by simp
      next
        case 3
        with ih show ?thesis by simp
      qed
    qed
  qed
  with front_mem [of m xs] show ?thesis by (simp add: isLeast_def)
qed

lemma isLeast_unique:
  assumes "isLeast pq a" and "isLeast pq b" and "\<forall>x. x \<in> set pq \<longrightarrow> wellFormed x"
  shows "a = b"
  using assms compare_antisym [of a b] by (auto simp: isLeast_def)

lemma dequeue_isLeast:
  assumes "dequeue pq = Some (e, rest)"
  shows "isLeast pq e" and "rest = remove1 e pq"
proof -
  from assms obtain y ys where pq: "pq = y # ys" and e: "e = front y ys" and r: "rest = remove1 e pq"
    by (auto simp: dequeue_def split: list.splits)
  from front_isLeast [of y ys] pq e show "isLeast pq e" by simp
  from r show "rest = remove1 e pq" .
qed

subsection \<open>Arrangement of the queue\<close>

lemma relax_queue_split:
  "relax rm vis e ns (risks, pq) =
     (fst (relax rm vis e ns (risks, [])), pq @ snd (relax rm vis e ns (risks, [])))"
proof (induction ns arbitrary: risks pq)
  case Nil
  show ?case by simp
next
  case (Cons n ns)
  obtain r1 a1 where s1: "relax1 rm vis e n (risks, []) = (r1, a1)"
    by (cases "relax1 rm vis e n (risks, [])")
  then have s2: "relax1 rm vis e n (risks, pq) = (r1, pq @ a1)"
    by (auto simp: relax1_eq split: if_splits)
  have "relax rm vis e (n # ns) (risks, pq) = relax rm vis e ns (r1, pq @ a1)"
    by (simp only: relax_Cons s2)
  also have "\<dots> = (fst (relax rm vis e ns (r1, [])), (pq @ a1) @ snd (relax rm vis e ns (r1, [])))"
    by (rule Cons.IH)
  finally have l: "relax rm vis e (n # ns) (risks, pq) =
      (fst (relax rm vis e ns (r1, [])), pq @ a1 @ snd (relax rm vis e ns (r1, [])))" by simp
  have "relax rm vis e (n # ns) (risks, []) = relax rm vis e ns (r1, a1)"
    by (simp only: relax_Cons s1)
  also have "\<dots> = (fst (relax rm vis e ns (r1, [])), a1 @ snd (relax rm vis e ns (r1, [])))"
    by (rule Cons.IH)
  finally have r: "relax rm vis e (n # ns) (risks, []) =
      (fst (relax rm vis e ns (r1, [])), a1 @ snd (relax rm vis e ns (r1, [])))" .
  show ?case unfolding l r by simp
qed

lemma relax_permuted:
  assumes "mset pq = mset pq'"
  shows "fst (relax rm vis e ns (risks, pq)) = fst (relax rm vis e ns (risks, pq'))"
    and "mset (snd (relax rm vis e ns (risks, pq))) = mset (snd (relax rm vis e ns (risks, pq')))"
  using assms
  by (simp_all add: relax_queue_split [of rm vis e ns risks pq] relax_queue_split [of rm vis e ns risks pq'])

lemma relax_wellFormed:
  assumes "\<forall>x. x \<in> set pq \<longrightarrow> wellFormed x"
  shows "\<forall>x. x \<in> set (snd (relax rm vis e ns (risks, pq))) \<longrightarrow> wellFormed x"
proof (intro allI impI)
  fix x assume "x \<in> set (snd (relax rm vis e ns (risks, pq)))"
  from relax_queue_new [OF this] assms show "wellFormed x"
    by (auto simp: wellFormed_def candidate_def)
qed

lemma dequeue_permuted:
  assumes m: "mset pq = mset pq'" and wf: "\<forall>x. x \<in> set pq \<longrightarrow> wellFormed x"
    and d: "dequeue pq = Some (e, rest)"
  shows "\<exists>rest'. dequeue pq' = Some (e, rest') \<and> mset rest' = mset rest"
proof -
  from m have sets: "set pq = set pq'" by (rule mset_eq_setD)
  from dequeue_isLeast [OF d] have le: "isLeast pq e" and r: "rest = remove1 e pq" by simp_all
  from d have "pq \<noteq> []" by (auto simp: dequeue_def)
  with sets have "pq' \<noteq> []" by auto
  then obtain e' rest' where d': "dequeue pq' = Some (e', rest')"
    by (cases pq') (auto simp: dequeue_def)
  from dequeue_isLeast [OF d'] have le': "isLeast pq' e'" and r': "rest' = remove1 e' pq'" by simp_all
  from le' sets have "isLeast pq e'" by (simp add: isLeast_def)
  from isLeast_unique [OF le this wf] have "e' = e" by simp
  with d' r r' m show ?thesis by simp
qed

lemma searchLoop_permuted:
  "\<forall>pq'. mset pq = mset pq' \<longrightarrow> (\<forall>x. x \<in> set pq \<longrightarrow> wellFormed x) \<longrightarrow>
     searchLoop g rm tgt risks visited pq = searchLoop g rm tgt risks visited pq'"
proof (induction g rm tgt risks visited pq rule: searchLoop.induct)
  case (1 g rm tgt risks visited pq)
  show ?case
  proof (intro allI impI)
    fix pq' assume m: "mset pq = mset pq'" and wf: "\<forall>x. x \<in> set pq \<longrightarrow> wellFormed x"
    show "searchLoop g rm tgt risks visited pq = searchLoop g rm tgt risks visited pq'"
    proof (cases "dequeue pq")
      case None
      then have "pq = []" by (simp add: dequeue_None)
      with m show ?thesis by simp
    next
      case (Some a)
      obtain e rest where a: "a = (e, rest)" by (cases a)
      with Some have d: "dequeue pq = Some (e, rest)" by simp
      from dequeue_permuted [OF m wf d] obtain rest' where
        d': "dequeue pq' = Some (e, rest')" and mr: "mset rest = mset rest'" by auto
      from dequeue_Some(2) [OF d] wf have wfr: "\<forall>x. x \<in> set rest \<longrightarrow> wellFormed x" by auto
      show ?thesis
      proof (cases "e_node e \<in> visited")
        case True
        from "1.IH"(1) [OF d refl True] mr wfr
        have "searchLoop g rm tgt risks visited rest = searchLoop g rm tgt risks visited rest'" by blast
        with d d' True show ?thesis
          by (simp add: searchLoop.simps [of g rm tgt risks visited pq]
              searchLoop.simps [of g rm tgt risks visited pq'])
      next
        case nv: False
        show ?thesis
        proof (cases "e_node e = tgt")
          case True
          with d d' nv show ?thesis
            by (simp add: searchLoop.simps [of g rm tgt risks visited pq]
                searchLoop.simps [of g rm tgt risks visited pq'])
        next
          case False
          let ?vis = "insert (e_node e) visited"
          let ?st = "relax rm ?vis e (neighborsOf g (e_node e)) (risks, rest)"
          let ?st' = "relax rm ?vis e (neighborsOf g (e_node e)) (risks, rest')"
          from relax_permuted [OF mr] have f: "fst ?st = fst ?st'" and s: "mset (snd ?st) = mset (snd ?st')"
            by simp_all
          from relax_wellFormed [OF wfr] have w: "\<forall>x. x \<in> set (snd ?st) \<longrightarrow> wellFormed x" .
          from "1.IH"(2) [OF d refl nv False] s w
          have "searchLoop g rm tgt (fst ?st) ?vis (snd ?st) = searchLoop g rm tgt (fst ?st) ?vis (snd ?st')"
            by blast
          with d d' nv False f show ?thesis
            by (simp add: searchLoop.simps [of g rm tgt risks visited pq]
                searchLoop.simps [of g rm tgt risks visited pq'])
        qed
      qed
    qed
  qed
qed

subsection \<open>The two copies on graphs with unique paths\<close>

lemma findBestPathToTarget_risk:
  assumes ok: "graphOK sensors g" and some: "findBestPathToTarget sensors g roots rm t = Some i"
  shows "risk i = pathRisk rm (path i)"
proof -
  from findBestPathToTarget_cases [of sensors g roots rm t] some
  obtain r res where r: "dijkstra sensors g rm r t = Some res" "path i = r_path res" "risk i = dist res"
    by auto
  from dijkstra_sound [OF ok r(1)] r(2,3) show ?thesis by simp
qed

lemma findBestPathToTarget_None:
  assumes ok: "graphOK sensors g"
  shows "findBestPathToTarget sensors g roots rm t = None \<longleftrightarrow> \<not> reachable g roots t"
proof
  assume none: "findBestPathToTarget sensors g roots rm t = None"
  show "\<not> reachable g roots t"
  proof
    assume "reachable g roots t"
    then obtain q where q: "rootPath g (set roots) t q" by (auto simp: reachable_def)
    from rootPath_hd [OF q] have q1: "rootPath g {hd q} t q" and hq: "hd q \<in> set roots" by simp_all
    from dijkstra_result [OF ok, of False rm "hd q" t] q1
    have "dijkstra sensors g rm (hd q) t \<noteq> None"
      by (auto simp: searchResult_def dijkstra_def split: option.splits)
    with findBestPathToTarget_cases [of sensors g roots rm t] none hq show False by auto
  qed
next
  assume nr: "\<not> reachable g roots t"
  show "findBestPathToTarget sensors g roots rm t = None"
  proof (cases "findBestPathToTarget sensors g roots rm t")
    case None
    then show ?thesis .
  next
    case (Some i)
    from findBestPathToTarget_sound [OF ok Some] nr show ?thesis by (auto simp: reachable_def)
  qed
qed

lemma scanTargets_same:
  assumes sa: "sameAnswers s1 s2"
  shows "sameChoice (fst st1) (fst st2) \<Longrightarrow> snd st1 = snd st2 \<Longrightarrow>
     sameChoice (fst (scanTargets s1 ts st1)) (fst (scanTargets s2 ts st2)) \<and>
     snd (scanTargets s1 ts st1) = snd (scanTargets s2 ts st2)"
proof (induction ts arbitrary: st1 st2)
  case Nil
  then show ?case by simp
next
  case (Cons t ts)
  obtain mp1 mr bt where st1: "st1 = (mp1, mr, bt)" by (cases st1)
  with Cons.prems(2) obtain mp2 where st2: "st2 = (mp2, mr, bt)" by (cases st2) auto
  from Cons.prems(1) st1 st2 have sc: "sameChoice mp1 mp2" by simp
  show ?case
  proof (cases "s1 t")
    case None
    with sa have "s2 t = None" by (simp add: sameAnswers_def)
    with None Cons.IH [of "(mp1, mr, bt)" "(mp2, mr, bt)"] sc st1 st2 show ?thesis by simp
  next
    case (Some i)
    from sa Some have "s2 t \<noteq> None"
      unfolding sameAnswers_def by (metis option.distinct(1))
    then obtain j where j0: "s2 t = Some j" by auto
    with sa Some have "target i = target j \<and> path i = path j \<and> risk i = risk j"
      unfolding sameAnswers_def by blast
    with j0 have j: "s2 t = Some j" "target i = target j" "path i = path j" "risk i = risk j"
      by simp_all
    show ?thesis
    proof (cases "numLess (risk i) mr \<or> (numEq (risk i) mr \<and> t < orZero bt)")
      case True
      have "sameChoice (fst (Some i, Num (risk i), Some t)) (fst (Some j, Num (risk j), Some t))"
        using j by (simp add: sameChoice_def)
      moreover have "snd (Some i, Num (risk i), Some t) = snd (Some j, Num (risk j), Some t)"
        using j by simp
      ultimately have "sameChoice (fst (scanTargets s1 ts (Some i, Num (risk i), Some t)))
            (fst (scanTargets s2 ts (Some j, Num (risk j), Some t))) \<and>
          snd (scanTargets s1 ts (Some i, Num (risk i), Some t)) =
            snd (scanTargets s2 ts (Some j, Num (risk j), Some t))"
        by (rule Cons.IH)
      with True Some j st1 st2 show ?thesis by auto
    next
      case False
      with Some j Cons.IH [of "(mp1, mr, bt)" "(mp2, mr, bt)"] sc st1 st2 show ?thesis by auto
    qed
  qed
qed

lemma chooseTarget_same:
  assumes "sameAnswers s1 s2"
  shows "sameChoice (chooseTarget s1 remaining) (chooseTarget s2 remaining)"
  using scanTargets_same [OF assms, of "(None, Infinity, None)" "(None, Infinity, None)" remaining]
  by (simp add: chooseTarget_def sameChoice_def)

lemma searches_same:
  assumes ok: "graphOK sensors g" and u: "uniquePaths g roots"
  shows "sameAnswers (multiRootDijkstra sensors g roots rm) (findBestPathToTarget sensors g roots rm)"
  unfolding sameAnswers_def
proof (intro allI conjI impI)
  fix t
  show "multiRootDijkstra sensors g roots rm t = None \<longleftrightarrow> findBestPathToTarget sensors g roots rm t = None"
    by (simp add: multiRootDijkstra_None [OF ok] findBestPathToTarget_None [OF ok])
next
  fix t i j
  assume i: "multiRootDijkstra sensors g roots rm t = Some i"
    and j: "findBestPathToTarget sensors g roots rm t = Some j"
  from multiRootDijkstra_sound [OF ok i] have ti: "target i = t"
    and pi: "rootPath g (set roots) t (path i)" and ri: "risk i = pathRisk rm (path i)" by simp_all
  from findBestPathToTarget_sound [OF ok j] have pj: "rootPath g (set roots) t (path j)" .
  from u pi pj have eq: "path i = path j" by (auto simp: uniquePaths_def)
  show "target i = target j" using ti findBestPathToTarget_target [OF j] by simp
  show "path i = path j" by (rule eq)
  show "risk i = risk j" using ri findBestPathToTarget_risk [OF ok j] eq by simp
qed

lemma loops_same:
  "graphOK sensors g \<Longrightarrow> uniquePaths g roots \<Longrightarrow>
     solveLoop_perRoot sensors g roots rm remaining paths = solveLoop sensors g roots rm remaining paths"
proof (induction sensors g roots rm remaining paths rule: solveLoop.induct)
  case (1 sensors g roots rm remaining paths)
  note ok = "1.prems"(1) and u = "1.prems"(2)
  show ?case
  proof (cases "remaining = []")
    case True
    then show ?thesis by (subst solveLoop.simps, subst solveLoop_perRoot.simps) simp
  next
    case ne: False
    from chooseTarget_same [OF searches_same [OF ok u], of rm remaining]
    have sc: "sameChoice (chooseTarget (multiRootDijkstra sensors g roots rm) remaining)
        (chooseTarget (findBestPathToTarget sensors g roots rm) remaining)" .
    show ?thesis
    proof (cases "chooseTarget (multiRootDijkstra sensors g roots rm) remaining")
      case None
      with sc have "chooseTarget (findBestPathToTarget sensors g roots rm) remaining = None"
        by (simp add: sameChoice_def)
      with None ne show ?thesis by (subst solveLoop.simps, subst solveLoop_perRoot.simps) simp
    next
      case (Some w)
      with sc obtain v where v: "chooseTarget (findBestPathToTarget sensors g roots rm) remaining = Some v"
        "target w = target v" "path w = path v" by (auto simp: sameChoice_def)
      from "1.IH" [OF ne Some ok u] ne Some v show ?thesis
        by (subst solveLoop.simps, subst solveLoop_perRoot.simps) simp
    qed
  qed
qed

lemma islandRoots: "rootsOf islandSensors = [0]"
  by (simp add: rootsOf_def islandSensors_def mkSensor_def)

lemma islandPaths:
  assumes "rootPath islandGraph {0} t p"
  shows "p = [0] \<or> p = [0, 1]"
proof -
  from assms obtain a r1 where p: "p = a # r1" by (cases p) (auto simp: rootPath_def)
  with assms have a: "a = 0" by (simp add: rootPath_def)
  show ?thesis
  proof (cases r1)
    case Nil
    with p a show ?thesis by simp
  next
    case (Cons b r2)
    with assms p a have b: "b = 1"
      by (auto simp: rootPath_def edge_def neighborsOf_def islandGraph_def)
    show ?thesis
    proof (cases r2)
      case Nil
      with p a Cons b show ?thesis by simp
    next
      case (Cons c r3)
      with assms p a \<open>r1 = b # r2\<close> b show ?thesis
        by (auto simp: rootPath_def edge_def neighborsOf_def islandGraph_def)
    qed
  qed
qed

lemma islandUnique: "uniquePaths islandGraph (rootsOf islandSensors)"
  unfolding uniquePaths_def islandRoots
proof (intro allI impI)
  fix t p p'
  assume a: "rootPath islandGraph (set [0]) t p" and b: "rootPath islandGraph (set [0]) t p'"
  then have "last p = t" "last p' = t" by (simp_all add: rootPath_def)
  moreover from a b islandPaths [of t p] islandPaths [of t p'] have "p = [0] \<or> p = [0, 1]" "p' = [0] \<or> p' = [0, 1]"
    by simp_all
  ultimately show "p = p'" by auto
qed

lemma islandRisks_nonNegative: "nonNegative (buildRiskMap islandRisks)"
  by (simp add: nonNegative_def buildRiskMap_def setRisk_def getRisk_def islandRisks_def mkRisk_def)

text \<open>
  Where no two different paths lead from the roots to the same node no tie arises, and
  the two copies return the same list; on a non-negative risk store the two searches
  find a path for the same targets, at the same risk.
\<close>

lemma copies_agree:
  assumes "buildGraph sensors = Inr g"
  shows "(uniquePaths g (rootsOf sensors) \<longrightarrow>
            solveHeist_perRoot sensors risks targetSensors = solveHeist sensors risks targetSensors) \<and>
         (nonNegative rm \<longrightarrow>
            (findBestPathToTarget sensors g (rootsOf sensors) rm tgt = None \<longleftrightarrow>
               multiRootDijkstra sensors g (rootsOf sensors) rm tgt = None) \<and>
            (\<forall>i j. findBestPathToTarget sensors g (rootsOf sensors) rm tgt = Some i \<longrightarrow>
               multiRootDijkstra sensors g (rootsOf sensors) rm tgt = Some j \<longrightarrow>
               risk i = risk j \<and> target i = target j))"
proof (intro conjI impI)
  note ok = buildGraph_ok [OF assms]
  {
    assume "uniquePaths g (rootsOf sensors)"
    from loops_same [OF ok this] assms
    show "solveHeist_perRoot sensors risks targetSensors = solveHeist sensors risks targetSensors"
      by (simp add: solveHeist_def solveHeist_perRoot_def)
  next
    show "findBestPathToTarget sensors g (rootsOf sensors) rm tgt = None \<longleftrightarrow>
        multiRootDijkstra sensors g (rootsOf sensors) rm tgt = None"
      by (simp add: multiRootDijkstra_None [OF ok] findBestPathToTarget_None [OF ok])
  next
    assume nn: "nonNegative rm"
    show "\<forall>i j. findBestPathToTarget sensors g (rootsOf sensors) rm tgt = Some i \<longrightarrow>
        multiRootDijkstra sensors g (rootsOf sensors) rm tgt = Some j \<longrightarrow>
        risk i = risk j \<and> target i = target j"
    proof (intro allI impI)
      fix i j
      assume i: "findBestPathToTarget sensors g (rootsOf sensors) rm tgt = Some i"
        and j: "multiRootDijkstra sensors g (rootsOf sensors) rm tgt = Some j"
      from multiRootDijkstra_sound(2) [OF ok j] have q: "rootPath g (set (rootsOf sensors)) tgt (path j)" .
      from multiRootDijkstra_minimum [OF ok nn q] j
      have mj: "minimumRiskPath g rm (set (rootsOf sensors)) tgt (path j) (risk j)" by simp
      from findBestPathToTarget_minimum [OF ok nn q] i
      have mi: "minimumRiskPath g rm (set (rootsOf sensors)) tgt (path i) (risk i)" by simp
      from mi mj have "risk i \<le> risk j" "risk j \<le> risk i" by (auto simp: minimumRiskPath_def)
      with findBestPathToTarget_target [OF i] multiRootDijkstra_target [OF j]
      show "risk i = risk j \<and> target i = target j" by simp
    qed
  }
qed

subsection \<open>The seven-sensor test\<close>

lemma smallGraph_built: "buildGraph smallSensors = Inr smallGraph"
  by (simp add: buildGraph_def emptyGraph_def smallSensors_def smallGraph_def mkSensor_def)

lemma smallRoots: "rootsOf smallSensors = [0, 1]"
  by (simp add: rootsOf_def smallSensors_def mkSensor_def)

lemma smallRun: "solveHeist smallSensors smallRisks [4, 5, 6] = Inr [[1, 2, 4], [1, 2, 4, 6], [1, 2, 5]]"
  by code_simp

lemma smallRun_perRoot: "solveHeist_perRoot smallSensors smallRisks [4, 5, 6] = Inr [[1, 2, 4], [1, 2, 4, 6], [1, 2, 5]]"
  by code_simp

lemma smallChoice:
  "chooseTarget (multiRootDijkstra smallSensors smallGraph [0, 1] (buildRiskMap smallRisks)) [6, 5, 4] =
     Some \<lparr>target = 4, path = [1, 2, 4], risk = 5\<rparr>"
  by code_simp

lemma smallChoice_perRoot:
  "chooseTarget (findBestPathToTarget smallSensors smallGraph [0, 1] (buildRiskMap smallRisks)) [6, 5, 4] =
     Some \<lparr>target = 4, path = [1, 2, 4], risk = 5, root = 1\<rparr>"
  by code_simp

lemma smallOthers:
  "multiRootDijkstra smallSensors smallGraph [0, 1] (buildRiskMap smallRisks) 6 =
     Some \<lparr>target = 6, path = [1, 2, 4, 6], risk = 6\<rparr>"
  "multiRootDijkstra smallSensors smallGraph [0, 1] (buildRiskMap smallRisks) 5 =
     Some \<lparr>target = 5, path = [0, 3, 5], risk = 6\<rparr>"
  by code_simp+

lemma zeroChoiceTie:
  "chooseTarget (multiRootDijkstra zeroSensors zeroGraph [0] (buildRiskMap zeroRisks)) [3, 2] =
     Some \<lparr>target = 2, path = [0, 1, 2], risk = 15\<rparr>"
  by code_simp

lemma zeroChoiceTie_perRoot:
  "chooseTarget (findBestPathToTarget zeroSensors zeroGraph [0] (buildRiskMap zeroRisks)) [3, 2] =
     Some \<lparr>target = 2, path = [0, 1, 2], risk = 15, root = 0\<rparr>"
  by code_simp

lemma zeroOther:
  "multiRootDijkstra zeroSensors zeroGraph [0] (buildRiskMap zeroRisks) 3 =
     Some \<lparr>target = 3, path = [0, 1, 3], risk = 15\<rparr>"
  by code_simp

lemma smallChoiceFirst:
  "chooseTarget (multiRootDijkstra smallSensors smallGraph [0, 1] (buildRiskMap smallRisks)) [4, 5, 6] =
     Some \<lparr>target = 4, path = [1, 2, 4], risk = 5\<rparr>"
  by code_simp

lemma solveLoop_perRoot_prefix:
  "\<exists>new. solveLoop_perRoot sensors g roots rm remaining paths = paths @ new"
proof (induction sensors g roots rm remaining paths rule: solveLoop_perRoot.induct)
  case (1 sensors g roots rm remaining paths)
  show ?case
  proof (cases "remaining = []")
    case True
    then show ?thesis by (subst solveLoop_perRoot.simps) simp
  next
    case ne: False
    show ?thesis
    proof (cases "chooseTarget (findBestPathToTarget sensors g roots rm) remaining")
      case None
      with ne show ?thesis by (subst solveLoop_perRoot.simps) simp
    next
      case (Some v)
      from "1.IH" [OF ne Some] obtain new where
        "solveLoop_perRoot sensors g roots (zeroPath rm (path v)) (removeAll (target v) remaining)
           (paths @ [path v]) = (paths @ [path v]) @ new" by blast
      with ne Some show ?thesis by (subst solveLoop_perRoot.simps) simp
    qed
  qed
qed

lemma iterations_same_run:
  "iterations sensors g roots n st = Some st' \<Longrightarrow>
     solveLoop sensors g roots (fst st) (fst (snd st)) (snd (snd st)) =
     solveLoop sensors g roots (fst st') (fst (snd st')) (snd (snd st'))"
proof (induction n arbitrary: st)
  case 0
  then show ?case by simp
next
  case (Suc n)
  from Suc.prems obtain st1 where st1: "iteration sensors g roots st = Some st1"
    and rest: "iterations sensors g roots n st1 = Some st'"
    by (auto split: option.splits)
  from st1 have "solveLoop sensors g roots (fst st) (fst (snd st)) (snd (snd st)) =
      solveLoop sensors g roots (fst st1) (fst (snd st1)) (snd (snd st1))"
    by (subst solveLoop_iteration) (auto split: prod.splits)
  with Suc.IH [OF rest] show ?case by simp
qed

lemma smallIteration:
  "iteration smallSensors smallGraph [0, 1] (buildRiskMap smallRisks, [4, 5, 6], []) =
     Some (zeroPath (buildRiskMap smallRisks) [1, 2, 4], [5, 6], [[1, 2, 4]])"
  by (simp add: iteration_def smallChoiceFirst del: One_nat_def)

lemma smallIteration2:
  "iteration smallSensors smallGraph [0, 1] (zeroPath (buildRiskMap smallRisks) [1, 2, 4], [5, 6], [[1, 2, 4]]) =
     Some (zeroPath (zeroPath (buildRiskMap smallRisks) [1, 2, 4]) [1, 2, 4, 6], [5], [[1, 2, 4], [1, 2, 4, 6]])"
proof -
  have "chooseTarget (multiRootDijkstra smallSensors smallGraph [0, 1] (zeroPath (buildRiskMap smallRisks) [1, 2, 4])) [5, 6] =
     Some \<lparr>target = 6, path = [1, 2, 4, 6], risk = 1\<rparr>" by code_simp
  then show ?thesis by (simp add: iteration_def del: One_nat_def)
qed

text \<open>
  The rest of the run on the seven-sensor test after its first iteration, from the
  risk store in which the path \<open>[1, 2, 4]\<close> is zeroed and from the store in which it
  is not.
\<close>

lemma smallZeroed:
  "solveLoop smallSensors smallGraph [0, 1] (zeroPath (buildRiskMap smallRisks) [1, 2, 4]) [5, 6] [[1, 2, 4]] =
     [[1, 2, 4], [1, 2, 4, 6], [1, 2, 5]]"
  by code_simp

lemma smallUnzeroed:
  "solveLoop smallSensors smallGraph [0, 1] (buildRiskMap smallRisks) [5, 6] [[1, 2, 4]] =
     [[1, 2, 4], [0, 3, 5], [0, 3, 5, 6]]"
  by code_simp

subsection \<open>Inputs without unknown dependencies\<close>




subsection \<open>Every run returns the value of the function\<close>

lemma isLeast_dequeue:
  assumes "isLeast pq e" and "\<forall>x. x \<in> set pq \<longrightarrow> wellFormed x"
  shows "dequeue pq = Some (e, remove1 e pq)"
proof -
  from assms(1) have "pq \<noteq> []" by (auto simp: isLeast_def)
  then obtain e' rest where d: "dequeue pq = Some (e', rest)"
    by (cases pq) (auto simp: dequeue_def)
  from dequeue_isLeast [OF d] have "isLeast pq e'" and r: "rest = remove1 e' pq" by simp_all
  with isLeast_unique [OF assms(1) _ assms(2)] have "e = e'" by simp
  with d r show ?thesis by simp
qed

lemma searchRun_unique:
  "searchRun g rm tgt risks visited pq r \<Longrightarrow> (\<forall>x. x \<in> set pq \<longrightarrow> wellFormed x) \<Longrightarrow>
     r = searchLoop g rm tgt risks visited pq"
proof (induction rule: searchRun.induct)
  case (exhausted g rm tgt risks visited)
  show ?case by (subst searchLoop.simps) (simp add: dequeue_def)
next
  case (stale pq e rest visited g rm tgt risks r)
  note d = isLeast_dequeue [OF stale.hyps(1) stale.prems]
  from stale.hyps(1) have mem: "e \<in> set pq" by (simp add: isLeast_def)
  have m: "mset (remove1 e pq) = mset rest" using stale.hyps(2) by simp
  have wf1: "\<forall>x. x \<in> set (remove1 e pq) \<longrightarrow> wellFormed x"
    using stale.prems set_remove1_subset [of e pq] by blast
  from mset_eq_setD [OF m] have "set rest = set (remove1 e pq)" by simp
  with wf1 have wf: "\<forall>x. x \<in> set rest \<longrightarrow> wellFormed x" by simp
  have "searchLoop g rm tgt risks visited (remove1 e pq) = searchLoop g rm tgt risks visited rest"
    by (rule searchLoop_permuted [rule_format, OF m]) (simp add: wf1)
  with stale.IH [OF wf] stale.hyps(3) d show ?case
    by (subst searchLoop.simps) simp
next
  case (found pq e visited tgt g rm risks)
  note d = isLeast_dequeue [OF found.hyps(1) found.prems]
  with found.hyps(2,3) show ?case by (subst searchLoop.simps) simp
next
  case (visit pq e rest visited tgt pq' rm g risks r)
  let ?vis = "insert (e_node e) visited"
  let ?ns = "neighborsOf g (e_node e)"
  note d = isLeast_dequeue [OF visit.hyps(1) visit.prems]
  have m: "mset (remove1 e pq) = mset rest" using visit.hyps(2) by simp
  have wf1: "\<forall>x. x \<in> set (remove1 e pq) \<longrightarrow> wellFormed x"
    using visit.prems set_remove1_subset [of e pq] by blast
  from mset_eq_setD [OF m] have "set rest = set (remove1 e pq)" by simp
  with wf1 have wfr: "\<forall>x. x \<in> set rest \<longrightarrow> wellFormed x" by simp
  note rp = relax_permuted [OF m, of rm ?vis e ?ns risks]
  let ?q = "snd (relax rm ?vis e ?ns (risks, remove1 e pq))"
  have wfq: "\<forall>x. x \<in> set ?q \<longrightarrow> wellFormed x" by (rule relax_wellFormed [OF wf1])
  have mq: "mset ?q = mset pq'" using rp(2) visit.hyps(5) by simp
  from mset_eq_setD [OF mq] have "set pq' = set ?q" by simp
  with wfq have wf': "\<forall>x. x \<in> set pq' \<longrightarrow> wellFormed x" by simp
  have "searchLoop g rm tgt (fst (relax rm ?vis e ?ns (risks, remove1 e pq))) ?vis ?q =
      searchLoop g rm tgt (fst (relax rm ?vis e ?ns (risks, remove1 e pq))) ?vis pq'"
    by (rule searchLoop_permuted [rule_format, OF mq]) (simp add: wfq)
  with visit.IH [OF wf'] rp(1) visit.hyps(3,4) d show ?case
    by (subst searchLoop.simps) simp
qed

lemma searchRun_searchLoop: "searchRun g rm tgt risks visited pq (searchLoop g rm tgt risks visited pq)"
proof (induction g rm tgt risks visited pq rule: searchLoop.induct)
  case (1 g rm tgt risks visited pq)
  show ?case
  proof (cases "dequeue pq")
    case None
    then have "pq = []" by (auto simp: dequeue_def split: list.splits)
    then show ?thesis by (subst searchLoop.simps) (simp add: dequeue_def searchRun.exhausted)
  next
    case (Some x)
    obtain e rest where x: "x = (e, rest)" by (cases x)
    with Some have d: "dequeue pq = Some (e, rest)" by simp
    from dequeue_isLeast [OF d] have le: "isLeast pq e" and r: "rest = remove1 e pq" by simp_all
    from le have "e \<in> set pq" by (simp add: isLeast_def)
    then have m: "mset rest = mset pq - {#e#}" by (simp add: r)
    show ?thesis
    proof (cases "e_node e \<in> visited")
      case True
      from "1.IH"(1) [OF d refl True]
      have "searchRun g rm tgt risks visited rest (searchLoop g rm tgt risks visited rest)" .
      from searchRun.stale [OF le m True this] d True show ?thesis
        by (subst searchLoop.simps) simp
    next
      case nv: False
      show ?thesis
      proof (cases "e_node e = tgt")
        case True
        from searchRun.found [OF le nv True, of g rm risks] d nv True show ?thesis
          by (subst searchLoop.simps) simp
      next
        case nt: False
        from "1.IH"(2) [OF d refl nv nt]
        have "searchRun g rm tgt
            (fst (relax rm (insert (e_node e) visited) e (neighborsOf g (e_node e)) (risks, rest)))
            (insert (e_node e) visited)
            (snd (relax rm (insert (e_node e) visited) e (neighborsOf g (e_node e)) (risks, rest)))
            (searchLoop g rm tgt
              (fst (relax rm (insert (e_node e) visited) e (neighborsOf g (e_node e)) (risks, rest)))
              (insert (e_node e) visited)
              (snd (relax rm (insert (e_node e) visited) e (neighborsOf g (e_node e)) (risks, rest))))" .
        from searchRun.visit [OF le m nv nt refl this] d nv nt show ?thesis
          by (subst searchLoop.simps) simp
      qed
    qed
  qed
qed

lemma seedRoots_wellFormed:
  "(\<forall>x. x \<in> set pq \<longrightarrow> wellFormed x) \<Longrightarrow>
     (\<forall>x. x \<in> set (snd (seedRoots roots (risks, pq))) \<longrightarrow> wellFormed x)"
proof (induction roots arbitrary: risks pq)
  case Nil
  then show ?case by simp
next
  case (Cons r rs)
  have "\<forall>x. x \<in> set (enqueue \<lparr>e_risk = 0, e_node = r, e_path = [r]\<rparr> pq) \<longrightarrow> wellFormed x"
    using Cons.prems by (auto simp: enqueue_def wellFormed_def)
  from Cons.IH [OF this] show ?case by simp
qed

lemma multiRootRun_iff:
  "multiRootRun sensors g roots rm tgt info \<longleftrightarrow> info = multiRootDijkstra sensors g roots rm tgt"
proof
  let ?seed = "seedRoots roots (initRisks sensors, [])"
  assume "multiRootRun sensors g roots rm tgt info"
  then obtain pq r where m: "mset pq = mset (snd ?seed)"
    and run: "searchRun g rm tgt (fst ?seed) {} pq r"
    and info: "info = (case r of None \<Rightarrow> None
                | Some e \<Rightarrow> Some \<lparr>target = tgt, path = e_path e, risk = e_risk e\<rparr>)"
    by (auto simp: multiRootRun_def)
  have wfs: "\<forall>x. x \<in> set (snd ?seed) \<longrightarrow> wellFormed x"
    by (rule seedRoots_wellFormed) simp
  from mset_eq_setD [OF m] have "set pq = set (snd ?seed)" by simp
  with wfs have wf: "\<forall>x. x \<in> set pq \<longrightarrow> wellFormed x" by simp
  have "searchLoop g rm tgt (fst ?seed) {} (snd ?seed) = searchLoop g rm tgt (fst ?seed) {} pq"
    by (rule searchLoop_permuted [rule_format, OF m [symmetric]]) (simp add: wfs)
  with searchRun_unique [OF run wf] info
  show "info = multiRootDijkstra sensors g roots rm tgt"
    by (simp add: multiRootDijkstra_def)
next
  assume "info = multiRootDijkstra sensors g roots rm tgt"
  then show "multiRootRun sensors g roots rm tgt info"
    unfolding multiRootRun_def multiRootDijkstra_def
    by (intro exI [of _ "snd (seedRoots roots (initRisks sensors, []))"]
          exI [of _ "searchLoop g rm tgt (fst (seedRoots roots (initRisks sensors, []))) {}
             (snd (seedRoots roots (initRisks sensors, [])))"])
       (simp add: searchRun_searchLoop)
qed

lemma scanTargets_cong:
  "(\<forall>t. t \<in> set ts \<longrightarrow> s1 t = s2 t) \<Longrightarrow> scanTargets s1 ts st = scanTargets s2 ts st"
proof (induction ts arbitrary: st)
  case Nil
  show ?case by simp
next
  case (Cons t ts)
  obtain a b c where st: "st = (a, b, c)" by (cases st)
  from Cons.prems have h: "s1 t = s2 t" and r: "\<forall>u. u \<in> set ts \<longrightarrow> s1 u = s2 u" by simp_all
  show ?case unfolding st by (simp add: h Cons.IH [OF r] split: option.splits)
qed

lemma chooseTarget_cong:
  "(\<forall>t. t \<in> set ts \<longrightarrow> s1 t = s2 t) \<Longrightarrow> chooseTarget s1 ts = chooseTarget s2 ts"
  using scanTargets_cong [of ts s1 s2] by (simp add: chooseTarget_def)

lemma solveRun_unique:
  "solveRun sensors g roots rm remaining paths out \<Longrightarrow>
     out = solveLoop sensors g roots rm remaining paths"
proof (induction rule: solveRun.induct)
  case (finished sensors g roots rm paths)
  show ?case by (subst solveLoop.simps) simp
next
  case (stopped remaining sensors g roots rm search paths)
  from stopped.hyps(2) have "\<forall>t. t \<in> set remaining \<longrightarrow> search t = multiRootDijkstra sensors g roots rm t"
    by (simp add: multiRootRun_iff)
  from chooseTarget_cong [OF this] stopped.hyps(3)
  have c: "chooseTarget (multiRootDijkstra sensors g roots rm) remaining = None" by simp
  show ?case by (subst solveLoop.simps) (simp add: stopped.hyps(1) c)
next
  case (recorded remaining sensors g roots rm search minPath paths out)
  from recorded.hyps(2) have "\<forall>t. t \<in> set remaining \<longrightarrow> search t = multiRootDijkstra sensors g roots rm t"
    by (simp add: multiRootRun_iff)
  from chooseTarget_cong [OF this] recorded.hyps(3)
  have c: "chooseTarget (multiRootDijkstra sensors g roots rm) remaining = Some minPath" by simp
  show ?case by (subst solveLoop.simps) (simp add: recorded.hyps(1) c recorded.IH)
qed

lemma solveRun_solveLoop:
  "solveRun sensors g roots rm remaining paths (solveLoop sensors g roots rm remaining paths)"
proof (induction sensors g roots rm remaining paths rule: solveLoop.induct)
  case (1 sensors g roots rm remaining paths)
  have runs: "\<forall>t. t \<in> set remaining \<longrightarrow>
      multiRootRun sensors g roots rm t (multiRootDijkstra sensors g roots rm t)"
    by (simp add: multiRootRun_iff)
  show ?case
  proof (cases "remaining = []")
    case True
    then show ?thesis by (subst solveLoop.simps) (simp add: solveRun.finished)
  next
    case ne: False
    show ?thesis
    proof (cases "chooseTarget (multiRootDijkstra sensors g roots rm) remaining")
      case None
      from solveRun.stopped [OF ne runs None, of paths] ne None show ?thesis
        by (subst solveLoop.simps) simp
    next
      case (Some w)
      from solveRun.recorded [OF ne runs Some "1.IH" [OF ne Some]] ne Some show ?thesis
        by (subst solveLoop.simps) simp
    qed
  qed
qed

lemma heistRun_iff: "heistRun sensors risks targetSensors out \<longleftrightarrow> out = solveHeist sensors risks targetSensors"
proof (cases "buildGraph sensors")
  case (Inl e)
  then show ?thesis by (simp add: heistRun_def solveHeist_def)
next
  case (Inr g)
  have "(\<exists>paths. solveRun sensors g (rootsOf sensors) (buildRiskMap risks) (newSet targetSensors) [] paths \<and>
        out = Inr paths) \<longleftrightarrow>
      out = Inr (solveLoop sensors g (rootsOf sensors) (buildRiskMap risks) (newSet targetSensors) [])"
    using solveRun_unique [of sensors g "rootsOf sensors" "buildRiskMap risks" "newSet targetSensors" "[]"]
      solveRun_solveLoop [of sensors g "rootsOf sensors" "buildRiskMap risks" "newSet targetSensors" "[]"]
    by blast
  with Inr show ?thesis by (simp add: heistRun_def solveHeist_def)
qed

text \<open>
  A run on the tie test whose queue holds its elements in the reverse of the order
  of their insertion, at the start and after every step.
\<close>

lemma tieSearch_rearranged:
  "searchRun tieGraph (buildRiskMap tieRisks) 2 (fst (seedRoots [0, 1] (initRisks tieSensors, []))) {}
     [\<lparr>e_risk = 0, e_node = 1, e_path = [1]\<rparr>, \<lparr>e_risk = 0, e_node = 0, e_path = [0]\<rparr>]
     (Some \<lparr>e_risk = 5, e_node = 2, e_path = [0, 2]\<rparr>)"
proof -
  let ?g = tieGraph
  let ?rm = "buildRiskMap tieRisks"
  let ?e0 = "\<lparr>e_risk = 0, e_node = 0, e_path = [0]\<rparr>"
  let ?e1 = "\<lparr>e_risk = 0, e_node = 1, e_path = [1]\<rparr>"
  let ?a = "\<lparr>e_risk = 5, e_node = 2, e_path = [0, 2]\<rparr>"
  let ?b = "\<lparr>e_risk = 5, e_node = 2, e_path = [1, 2]\<rparr>"
  let ?R0 = "fst (seedRoots [0, 1] (initRisks tieSensors, []))"
  let ?st1 = "relax ?rm (insert (e_node ?e0) {}) ?e0 (neighborsOf ?g (e_node ?e0)) (?R0, [?e1])"
  let ?st2 = "relax ?rm (insert (e_node ?e1) (insert (e_node ?e0) {})) ?e1 (neighborsOf ?g (e_node ?e1)) (fst ?st1, [?a])"
  have c1: "compare ?e0 ?e1 \<le> 0" by code_simp
  have c2: "compare ?e1 ?a \<le> 0" by code_simp
  have c3: "compare ?a ?b \<le> 0" by code_simp
  have l1: "isLeast [?e1, ?e0] ?e0" using c1 by (auto simp: isLeast_def compare_refl)
  have l2: "isLeast [?a, ?e1] ?e1" using c2 by (auto simp: isLeast_def compare_refl)
  have l3: "isLeast [?b, ?a] ?a" using c3 by (auto simp: isLeast_def compare_refl)
  have n0: "neighborsOf ?g 0 = [2]" and n1: "neighborsOf ?g 1 = [2]"
    by (simp_all add: neighborsOf_def tieGraph_def)
  have r02: "getRisk ?rm 0 2 = 5" and r12: "getRisk ?rm 1 2 = 5"
    by (simp_all add: buildRiskMap_def setRisk_def getRisk_def tieRisks_def mkRisk_def)
  have I2: "initRisks tieSensors 2 = Some Infinity"
    by (simp add: initRisks_def tieSensors_def mkSensor_def)
  have st1: "?st1 = (?R0(2 \<mapsto> Num 5), [?e1, ?a])"
    by (simp add: n0 r02 I2 enqueue_def)
  have st2: "snd ?st2 = [?a, ?b]"
    by (simp add: n0 n1 r02 r12 I2 enqueue_def del: One_nat_def)
  have s3: "searchRun ?g ?rm 2 (fst ?st2) (insert (e_node ?e1) (insert (e_node ?e0) {})) [?b, ?a] (Some ?a)"
    by (rule searchRun.found [OF l3]) simp_all
  have s2: "searchRun ?g ?rm 2 (fst ?st1) (insert (e_node ?e0) {}) [?a, ?e1] (Some ?a)"
  proof (rule searchRun.visit [OF l2 _ _ _ _ s3])
    show "mset [?a] = mset [?a, ?e1] - {#?e1#}" by simp
    show "e_node ?e1 \<notin> insert (e_node ?e0) {}" by simp
    show "e_node ?e1 \<noteq> 2" by simp
    show "mset [?b, ?a] = mset (snd ?st2)" by (simp only: st2) simp
  qed
  show ?thesis
  proof (rule searchRun.visit [OF l1 _ _ _ _ s2])
    show "mset [?e1] = mset [?e1, ?e0] - {#?e0#}" by simp
    show "e_node ?e0 \<notin> {}" by simp
    show "e_node ?e0 \<noteq> 2" by simp
    show "mset [?a, ?e1] = mset (snd ?st1)" by (simp only: st1) simp
  qed
qed

lemma tieHeist_rearranged: "heistRun tieSensors tieRisks [2] (Inr [[0, 2]])"
proof -
  let ?rm = "buildRiskMap tieRisks"
  let ?w = "\<lparr>target = 2, path = [0, 2], risk = 5\<rparr>"
  have seed: "mset [\<lparr>e_risk = 0, e_node = 1, e_path = [1]\<rparr>, \<lparr>e_risk = 0, e_node = 0, e_path = [0]\<rparr>] =
      mset (snd (seedRoots [0, 1] (initRisks tieSensors, [])))"
    by (simp add: enqueue_def)
  have "multiRootRun tieSensors tieGraph [0, 1] ?rm 2 (Some ?w)"
    unfolding multiRootRun_def
    by (intro exI [of _ "[\<lparr>e_risk = 0, e_node = 1, e_path = [1]\<rparr>, \<lparr>e_risk = 0, e_node = 0, e_path = [0]\<rparr>]"]
          exI [of _ "Some \<lparr>e_risk = 5, e_node = 2, e_path = [0, 2]\<rparr>"] conjI seed tieSearch_rearranged)
       simp
  then have runs: "\<forall>t. t \<in> set [2] \<longrightarrow> multiRootRun tieSensors tieGraph [0, 1] ?rm t ((\<lambda>t. Some ?w) t)"
    by simp
  have ch: "chooseTarget (\<lambda>t. Some ?w) [2] = Some ?w" by (simp add: chooseTarget_def)
  have ne: "[2] \<noteq> ([] :: nat list)" by simp
  have fin: "solveRun tieSensors tieGraph [0, 1] (zeroPath ?rm (path ?w)) (removeAll (target ?w) [2])
      ([] @ [path ?w]) [[0, 2]]"
    using solveRun.finished [of tieSensors tieGraph "[0, 1]" "zeroPath ?rm (path ?w)" "[[0, 2]]"] by simp
  from solveRun.recorded [OF ne runs ch fin]
  have "solveRun tieSensors tieGraph [0, 1] ?rm [2] [] [[0, 2]]" .
  moreover have "newSet [2] = [2]" by (simp add: newSet_def)
  ultimately show ?thesis
    by (simp add: heistRun_def tieGraph_built tieRoots)
qed

section \<open>The claims\<close>



text \<open>
  C2. The comparator orders tied paths by \<open>localeCompare\<close> of their joined strings,
  not by their identifiers. With the root 0, its successors 9 and 10 and the target
  11 behind both, the paths \<open>[0, 9, 11]\<close> and \<open>[0, 10, 11]\<close> tie at risk 2; the
  string \<open>0,10,11\<close> sorts before \<open>0,9,11\<close>, and the multi-source copy and the
  per-root copy both return \<open>[0, 10, 11]\<close>, although \<open>[0, 9, 11]\<close> has the smaller
  identifier at the first position where the two differ. On the example of the claim
  (roots 0 and 1, target 2) the search returns \<open>[0, 2]\<close>.
\<close>

theorem tie_break_compares_strings:
  "solveHeist forkSensors forkRisks [11] = Inr [[0, 10, 11]] \<and>
   solveHeist_perRoot forkSensors forkRisks [11] = Inr [[0, 10, 11]] \<and>
   rootPath forkGraph (set (rootsOf forkSensors)) 11 [0, 9, 11] \<and>
   pathRisk (buildRiskMap forkRisks) [0, 9, 11] = pathRisk (buildRiskMap forkRisks) [0, 10, 11] \<and>
   compare \<lparr>e_risk = 2, e_node = 11, e_path = [0, 10, 11]\<rparr>
     \<lparr>e_risk = 2, e_node = 11, e_path = [0, 9, 11]\<rparr> < 0 \<and>
   solveHeist tieSensors tieRisks [2] = Inr [[0, 2]]"
proof -
  have "rootPath forkGraph (set (rootsOf forkSensors)) 11 [0, 9, 11]"
    by (simp add: forkRoots rootPath_def edge_def neighborsOf_def forkGraph_def)
  moreover have "pathRisk (buildRiskMap forkRisks) [0, 9, 11] = pathRisk (buildRiskMap forkRisks) [0, 10, 11]"
    by (simp add: buildRiskMap_def setRisk_def getRisk_def forkRisks_def mkRisk_def)
  moreover have "compare \<lparr>e_risk = 2, e_node = 11, e_path = [0, 10, 11]\<rparr>
     \<lparr>e_risk = 2, e_node = 11, e_path = [0, 9, 11]\<rparr> < 0"
    by code_simp
  ultimately show ?thesis using forkRun forkRun_perRoot tieRun by simp
qed

text \<open>
  C3. In an iteration with a non-empty pending set, the target that is removed and
  whose path is appended is a pending target for which the search returned that
  path; its risk is least among the pending targets with a path, and among those of
  the same risk its identifier is least; and the path is the next entry of the list
  that the loop returns, right after the paths recorded before the iteration. This
  holds for the multi-source copy and for the per-root copy.
\<close>

theorem chosen_target_is_cheapest:
  assumes "remaining \<noteq> []"
  shows "(chooseTarget (multiRootDijkstra sensors g roots rm) remaining = Some w \<longrightarrow>
            solveLoop sensors g roots rm remaining paths =
              solveLoop sensors g roots (zeroPath rm (path w)) (removeAll (target w) remaining)
                (paths @ [path w]) \<and>
            (\<exists>later. solveLoop sensors g roots rm remaining paths = paths @ path w # later) \<and>
            bestAmong (multiRootDijkstra sensors g roots rm) (set remaining) w) \<and>
         (chooseTarget (findBestPathToTarget sensors g roots rm) remaining = Some v \<longrightarrow>
            solveLoop_perRoot sensors g roots rm remaining paths =
              solveLoop_perRoot sensors g roots (zeroPath rm (path v)) (removeAll (target v) remaining)
                (paths @ [path v]) \<and>
            (\<exists>later. solveLoop_perRoot sensors g roots rm remaining paths = paths @ path v # later) \<and>
            bestAmong (findBestPathToTarget sensors g roots rm) (set remaining) v)"
proof (intro conjI impI)
  assume c: "chooseTarget (multiRootDijkstra sensors g roots rm) remaining = Some w"
  with assms show eq: "solveLoop sensors g roots rm remaining paths =
      solveLoop sensors g roots (zeroPath rm (path w)) (removeAll (target w) remaining) (paths @ [path w])"
    by (subst solveLoop.simps) simp
  show "\<exists>later. solveLoop sensors g roots rm remaining paths = paths @ path w # later"
    unfolding eq by (subst solveLoop_trace) simp
  show "bestAmong (multiRootDijkstra sensors g roots rm) (set remaining) w"
    using chooseTarget_best(1) [OF _ c] multiRootDijkstra_target by blast
next
  assume c: "chooseTarget (findBestPathToTarget sensors g roots rm) remaining = Some v"
  with assms show eq: "solveLoop_perRoot sensors g roots rm remaining paths =
      solveLoop_perRoot sensors g roots (zeroPath rm (path v)) (removeAll (target v) remaining) (paths @ [path v])"
    by (subst solveLoop_perRoot.simps) simp
  from solveLoop_perRoot_prefix [of sensors g roots "zeroPath rm (path v)" "removeAll (target v) remaining" "paths @ [path v]"]
  show "\<exists>later. solveLoop_perRoot sensors g roots rm remaining paths = paths @ path v # later"
    unfolding eq by auto
  show "bestAmong (findBestPathToTarget sensors g roots rm) (set remaining) v"
    using chooseTarget_best(1) [OF _ c] findBestPathToTarget_target by blast
qed

theorem chosen_target_is_cheapest_witness:
  "[6, 5, 4] \<noteq> ([] :: nat list) \<and>
   chooseTarget (multiRootDijkstra smallSensors smallGraph [0, 1] (buildRiskMap smallRisks)) [6, 5, 4] =
     Some \<lparr>target = 4, path = [1, 2, 4], risk = 5\<rparr> \<and>
   multiRootDijkstra smallSensors smallGraph [0, 1] (buildRiskMap smallRisks) 6 =
     Some \<lparr>target = 6, path = [1, 2, 4, 6], risk = 6\<rparr> \<and>
   multiRootDijkstra smallSensors smallGraph [0, 1] (buildRiskMap smallRisks) 5 =
     Some \<lparr>target = 5, path = [0, 3, 5], risk = 6\<rparr> \<and>
   bestAmong (multiRootDijkstra smallSensors smallGraph [0, 1] (buildRiskMap smallRisks)) (set [6, 5, 4])
     \<lparr>target = 4, path = [1, 2, 4], risk = 5\<rparr> \<and>
   (\<exists>later. solveLoop smallSensors smallGraph [0, 1] (buildRiskMap smallRisks) [6, 5, 4] [] =
      [] @ [1, 2, 4] # later) \<and>
   chooseTarget (findBestPathToTarget smallSensors smallGraph [0, 1] (buildRiskMap smallRisks)) [6, 5, 4] =
     Some \<lparr>target = 4, path = [1, 2, 4], risk = 5, root = 1\<rparr> \<and>
   bestAmong (findBestPathToTarget smallSensors smallGraph [0, 1] (buildRiskMap smallRisks)) (set [6, 5, 4])
     \<lparr>target = 4, path = [1, 2, 4], risk = 5, root = 1\<rparr> \<and>
   [3, 2] \<noteq> ([] :: nat list) \<and>
   chooseTarget (multiRootDijkstra zeroSensors zeroGraph [0] (buildRiskMap zeroRisks)) [3, 2] =
     Some \<lparr>target = 2, path = [0, 1, 2], risk = 15\<rparr> \<and>
   multiRootDijkstra zeroSensors zeroGraph [0] (buildRiskMap zeroRisks) 3 =
     Some \<lparr>target = 3, path = [0, 1, 3], risk = 15\<rparr> \<and>
   bestAmong (multiRootDijkstra zeroSensors zeroGraph [0] (buildRiskMap zeroRisks)) (set [3, 2])
     \<lparr>target = 2, path = [0, 1, 2], risk = 15\<rparr> \<and>
   chooseTarget (findBestPathToTarget zeroSensors zeroGraph [0] (buildRiskMap zeroRisks)) [3, 2] =
     Some \<lparr>target = 2, path = [0, 1, 2], risk = 15, root = 0\<rparr> \<and>
   bestAmong (findBestPathToTarget zeroSensors zeroGraph [0] (buildRiskMap zeroRisks)) (set [3, 2])
     \<lparr>target = 2, path = [0, 1, 2], risk = 15, root = 0\<rparr>"
proof -
  have ne1: "[6, 5, 4] \<noteq> ([] :: nat list)" and ne2: "[3, 2] \<noteq> ([] :: nat list)" by simp_all
  note small = chosen_target_is_cheapest [OF ne1, of smallSensors smallGraph "[0, 1]" "buildRiskMap smallRisks"
      "\<lparr>target = 4, path = [1, 2, 4], risk = 5\<rparr>" "[]" "\<lparr>target = 4, path = [1, 2, 4], risk = 5, root = 1\<rparr>"]
  from small smallChoice
  have a: "bestAmong (multiRootDijkstra smallSensors smallGraph [0, 1] (buildRiskMap smallRisks)) (set [6, 5, 4])
       \<lparr>target = 4, path = [1, 2, 4], risk = 5\<rparr>"
    by blast
  from small smallChoice
  have "\<exists>later. solveLoop smallSensors smallGraph [0, 1] (buildRiskMap smallRisks) [6, 5, 4] [] =
      [] @ path \<lparr>target = 4, path = [1, 2, 4], risk = 5\<rparr> # later"
    by blast
  then have b: "\<exists>later. solveLoop smallSensors smallGraph [0, 1] (buildRiskMap smallRisks) [6, 5, 4] [] =
      [] @ [1, 2, 4] # later"
    by simp
  from small smallChoice_perRoot
  have c: "bestAmong (findBestPathToTarget smallSensors smallGraph [0, 1] (buildRiskMap smallRisks)) (set [6, 5, 4])
       \<lparr>target = 4, path = [1, 2, 4], risk = 5, root = 1\<rparr>"
    by blast
  note zero = chosen_target_is_cheapest [OF ne2, of zeroSensors zeroGraph "[0]" "buildRiskMap zeroRisks"
      "\<lparr>target = 2, path = [0, 1, 2], risk = 15\<rparr>" "[]" "\<lparr>target = 2, path = [0, 1, 2], risk = 15, root = 0\<rparr>"]
  from zero zeroChoiceTie
  have d: "bestAmong (multiRootDijkstra zeroSensors zeroGraph [0] (buildRiskMap zeroRisks)) (set [3, 2])
       \<lparr>target = 2, path = [0, 1, 2], risk = 15\<rparr>"
    by blast
  from zero zeroChoiceTie_perRoot
  have e: "bestAmong (findBestPathToTarget zeroSensors zeroGraph [0] (buildRiskMap zeroRisks)) (set [3, 2])
       \<lparr>target = 2, path = [0, 1, 2], risk = 15, root = 0\<rparr>"
    by blast
  show ?thesis
    by (intro conjI ne1 ne2 a b c d e smallChoice smallChoice_perRoot smallOthers zeroChoiceTie
        zeroChoiceTie_perRoot zeroOther)
qed

text \<open>
  C4. When an iteration of the outer loop records a path, the run continues from the
  state the iteration leaves (\<open>solveLoop\<close> returns what it returns from that state,
  and from every state reached later); in the risk store of every later state every
  consecutive pair of the recorded path has risk 0; and the stored risk of every
  other directed edge is the one it had before the iteration.
\<close>

theorem recorded_path_is_zeroed:
  assumes "iteration sensors g roots (rm, remaining, paths) = Some (rm1, remaining1, paths1)"
  shows "solveLoop sensors g roots rm remaining paths = solveLoop sensors g roots rm1 remaining1 paths1 \<and>
     (\<exists>p. paths1 = paths @ [p] \<and>
        (\<forall>a b n rm2 remaining2 paths2. onPath p a b \<longrightarrow>
           iterations sensors g roots n (rm1, remaining1, paths1) = Some (rm2, remaining2, paths2) \<longrightarrow>
           getRisk rm2 a b = 0 \<and>
           solveLoop sensors g roots rm remaining paths = solveLoop sensors g roots rm2 remaining2 paths2) \<and>
        (\<forall>a b. \<not> onPath p a b \<longrightarrow> rm1 (a, b) = rm (a, b)))"
proof -
  from assms obtain w :: TargetPathInfo where w: "rm1 = zeroPath rm (path w)" "paths1 = paths @ [path w]"
    by (auto simp: iteration_def split: if_splits option.splits)
  have first: "solveLoop sensors g roots rm remaining paths = solveLoop sensors g roots rm1 remaining1 paths1"
    using assms by (subst solveLoop_iteration) simp
  have "getRisk rm2 a b = 0 \<and>
      solveLoop sensors g roots rm remaining paths = solveLoop sensors g roots rm2 remaining2 paths2"
    if "onPath (path w) a b"
      and "iterations sensors g roots n (rm1, remaining1, paths1) = Some (rm2, remaining2, paths2)"
    for a b n rm2 remaining2 paths2
    using iterations_keep_zero [OF that(2), of a b] getRisk_zeroPath_on [OF that(1), of rm] w(1)
      iterations_same_run [OF that(2)] first
    by simp
  moreover have "rm1 (a, b) = rm (a, b)" if "\<not> onPath (path w) a b" for a b
    using that w(1) by (simp add: zeroPath_eq)
  ultimately show ?thesis using w(2) first by blast
qed

theorem recorded_path_is_zeroed_witness:
  "iteration smallSensors smallGraph [0, 1] (buildRiskMap smallRisks, [4, 5, 6], []) =
     Some (zeroPath (buildRiskMap smallRisks) [1, 2, 4], [5, 6], [[1, 2, 4]]) \<and>
   solveLoop smallSensors smallGraph [0, 1] (buildRiskMap smallRisks) [4, 5, 6] [] =
     solveLoop smallSensors smallGraph [0, 1] (zeroPath (buildRiskMap smallRisks) [1, 2, 4]) [5, 6] [[1, 2, 4]] \<and>
   getRisk (zeroPath (zeroPath (buildRiskMap smallRisks) [1, 2, 4]) [1, 2, 4, 6]) 1 2 = 0 \<and>
   getRisk (zeroPath (zeroPath (buildRiskMap smallRisks) [1, 2, 4]) [1, 2, 4, 6]) 2 4 = 0 \<and>
   solveLoop smallSensors smallGraph [0, 1] (buildRiskMap smallRisks) [4, 5, 6] [] =
     solveLoop smallSensors smallGraph [0, 1]
       (zeroPath (zeroPath (buildRiskMap smallRisks) [1, 2, 4]) [1, 2, 4, 6]) [5] [[1, 2, 4], [1, 2, 4, 6]] \<and>
   zeroPath (buildRiskMap smallRisks) [1, 2, 4] (3, 5) = buildRiskMap smallRisks (3, 5) \<and>
   solveHeist smallSensors smallRisks [4, 5, 6] = Inr [[1, 2, 4], [1, 2, 4, 6], [1, 2, 5]] \<and>
   solveLoop smallSensors smallGraph [0, 1] (buildRiskMap smallRisks) [4, 5, 6] [] =
     [[1, 2, 4], [1, 2, 4, 6], [1, 2, 5]] \<and>
   solveLoop smallSensors smallGraph [0, 1] (buildRiskMap smallRisks) [5, 6] [[1, 2, 4]] =
     [[1, 2, 4], [0, 3, 5], [0, 3, 5, 6]]"
proof -
  let ?rm0 = "buildRiskMap smallRisks"
  let ?rm1 = "zeroPath ?rm0 [1, 2, 4]"
  let ?rm2 = "zeroPath ?rm1 [1, 2, 4, 6]"
  from recorded_path_is_zeroed [OF smallIteration] obtain p where
    l: "solveLoop smallSensors smallGraph [0, 1] ?rm0 [4, 5, 6] [] =
          solveLoop smallSensors smallGraph [0, 1] ?rm1 [5, 6] [[1, 2, 4]]"
    and p: "[[1, 2, 4]] = [] @ [p]"
    and z: "\<forall>a b n rm2 remaining2 paths2. onPath p a b \<longrightarrow>
        iterations smallSensors smallGraph [0, 1] n (?rm1, [5, 6], [[1, 2, 4]]) = Some (rm2, remaining2, paths2) \<longrightarrow>
        getRisk rm2 a b = 0 \<and>
        solveLoop smallSensors smallGraph [0, 1] ?rm0 [4, 5, 6] [] =
          solveLoop smallSensors smallGraph [0, 1] rm2 remaining2 paths2"
    and k: "\<forall>a b. \<not> onPath p a b \<longrightarrow> ?rm1 (a, b) = ?rm0 (a, b)"
    by blast
  from p have p': "p = [1, 2, 4]" by simp
  have on: "onPath p 1 2" "onPath p 2 4" and off: "\<not> onPath p 3 5" by (simp_all add: p' onPath_def)
  have it: "iterations smallSensors smallGraph [0, 1] (Suc 0) (?rm1, [5, 6], [[1, 2, 4]]) =
      Some (?rm2, [5], [[1, 2, 4], [1, 2, 4, 6]])"
    by (simp only: iterations.simps smallIteration2 option.case)
  from z on(1) it have a: "getRisk ?rm2 1 2 = 0" by blast
  from z on(2) it have b: "getRisk ?rm2 2 4 = 0 \<and>
      solveLoop smallSensors smallGraph [0, 1] ?rm0 [4, 5, 6] [] =
        solveLoop smallSensors smallGraph [0, 1] ?rm2 [5] [[1, 2, 4], [1, 2, 4, 6]]" by blast
  from k off have c: "?rm1 (3, 5) = ?rm0 (3, 5)" by blast
  from b have b1: "getRisk ?rm2 2 4 = 0" and b2: "solveLoop smallSensors smallGraph [0, 1] ?rm0 [4, 5, 6] [] =
        solveLoop smallSensors smallGraph [0, 1] ?rm2 [5] [[1, 2, 4], [1, 2, 4, 6]]" by blast+
  from l smallZeroed have r: "solveLoop smallSensors smallGraph [0, 1] ?rm0 [4, 5, 6] [] =
      [[1, 2, 4], [1, 2, 4, 6], [1, 2, 5]]" by (simp only:)
  show ?thesis by (intro conjI smallIteration l a b1 b2 c smallRun r smallUnzeroed)
qed

text \<open>
  C5. Counterexample: on the repository's own path-zeroing test (edges 0-1 of risk
  10, 1-2 and 1-3 of risk 5, targets 2 and 3) the first target is resolved at risk 15
  and the second at risk 5, because recording the first path zeroes the edges 0-1 and
  1-2.
\<close>

theorem resolved_risks_not_monotone:
  "resolvedRisks zeroSensors zeroRisks [2, 3] = Inr [15, 5] \<and>
   solveHeist zeroSensors zeroRisks [2, 3] = Inr [[0, 1, 2], [0, 1, 3]] \<and>
   \<not> sorted [15, 5 :: int]"
proof -
  let ?tr = "solveTrace zeroSensors zeroGraph [0] (buildRiskMap zeroRisks) (newSet [2, 3])"
  have r: "resolutions zeroSensors zeroRisks [2, 3] = Inr ?tr"
    by (simp add: resolutions_def zeroGraph_built zeroRoots)
  have p: "map (\<lambda>x. path (snd x)) ?tr = map path (map snd ?tr)"
    and k: "map (\<lambda>x. risk (snd x)) ?tr = map risk (map snd ?tr)" by simp_all
  have "map (\<lambda>x. path (snd x)) ?tr = [[0, 1, 2], [0, 1, 3]]"
    and "map (\<lambda>x. risk (snd x)) ?tr = [15, 5]"
    unfolding p k zeroTrace by simp_all
  with r show ?thesis by (simp add: resolvedRisks_def solveHeist_resolutions)
qed

text \<open>
  C5, amended. If path i is recorded before path j, then the risk recorded at
  iteration i is at most the risk that the search returned at iteration i, with the
  risk store of that iteration, for the target of path j; when the two are equal the
  target of path i has the smaller identifier. (The risks recorded at the two
  iterations themselves are not ordered: each recorded path zeroes its edges.)
\<close>

theorem resolved_in_greedy_order:
  assumes "buildGraph sensors = Inr g"
    and "resolutions sensors risks targetSensors = Inr tr"
    and "i < j" and "j < length tr"
  shows "\<exists>info. multiRootDijkstra sensors g (rootsOf sensors) (fst (tr ! i)) (target (snd (tr ! j))) = Some info \<and>
     (risk (snd (tr ! i)) < risk info \<or>
      (risk (snd (tr ! i)) = risk info \<and> target (snd (tr ! i)) < target (snd (tr ! j))))"
proof -
  from assms(1,2) have "tr = solveTrace sensors g (rootsOf sensors) (buildRiskMap risks) (newSet targetSensors)"
    by (simp add: resolutions_def)
  from solveTrace_order [OF buildGraph_ok [OF assms(1)] this assms(3,4)] show ?thesis .
qed

theorem resolved_in_greedy_order_witness:
  "buildGraph zeroSensors = Inr zeroGraph \<and>
   (\<exists>tr. resolutions zeroSensors zeroRisks [2, 3] = Inr tr \<and> (0 :: nat) < 1 \<and> 1 < length tr \<and>
     (\<exists>info. multiRootDijkstra zeroSensors zeroGraph (rootsOf zeroSensors) (fst (tr ! 0)) (target (snd (tr ! 1))) = Some info \<and>
        (risk (snd (tr ! 0)) < risk info \<or>
         (risk (snd (tr ! 0)) = risk info \<and> target (snd (tr ! 0)) < target (snd (tr ! 1))))))"
proof -
  let ?tr = "solveTrace zeroSensors zeroGraph [0] (buildRiskMap zeroRisks) (newSet [2, 3])"
  have r: "resolutions zeroSensors zeroRisks [2, 3] = Inr ?tr"
    by (simp add: resolutions_def zeroGraph_built zeroRoots)
  have "length (map snd ?tr) = 2" unfolding zeroTrace by simp
  then have len: "1 < length ?tr" by simp
  have lt: "(0 :: nat) < 1" by simp
  from resolved_in_greedy_order [OF zeroGraph_built r lt len] zeroGraph_built r lt len
  show ?thesis by blast
qed




text \<open>
  C7. Counterexample: the second per-root copy, run on a sensor list whose sensor 1
  depends on the absent identifier 7, reports nothing and returns the path to the
  target 1.
\<close>

theorem unknown_dependency_skipped:
  "unknownDependency danglingSensors \<and>
   solveHeist_scan danglingSensors danglingRisks [1] = [[0, 1]]"
proof -
  have "solveHeist_scan danglingSensors danglingRisks [1] = [[0, 1]]" by code_simp
  with danglingUnknown show ?thesis by simp
qed

text \<open>
  C7, amended. For every sensor list in which some dependency is not the identifier
  of a sensor of the list, the multi-source copy and the first per-root copy fail
  with the TypeError that the construction of the graph raises, before any search,
  and return no paths. (The second per-root copy skips such a dependency and
  completes the run.)
\<close>

theorem unknown_dependency_is_fatal:
  assumes "unknownDependency sensors"
  shows "buildGraph sensors = Inl TypeError \<and>
     solveHeist sensors risks targetSensors = Inl TypeError \<and>
     solveHeist_perRoot sensors risks targetSensors = Inl TypeError"
proof -
  from assms have "buildGraph sensors = Inl TypeError"
    by (simp add: buildGraph_error unknownDependency_def)
  then show ?thesis by (simp add: solveHeist_def solveHeist_perRoot_def)
qed

theorem unknown_dependency_is_fatal_witness:
  "unknownDependency danglingSensors \<and>
   solveHeist danglingSensors danglingRisks [1] = Inl TypeError \<and>
   solveHeist_perRoot danglingSensors danglingRisks [1] = Inl TypeError"
  using unknown_dependency_is_fatal [OF danglingUnknown, of danglingRisks "[1]"] danglingUnknown
  by simp

text \<open>
  C8. The two copies return different lists on the roots 9 and 10, each with an edge
  of risk 5 to the target 11. The per-root copy searches from the roots in ascending
  order and keeps the first of two roots of equal risk, so it returns \<open>[9, 11]\<close>,
  the path with the smaller identifiers that the comment on \<open>multiRootDijkstra\<close>
  promises for ties. The multi-source copy orders the queue entries of the two roots
  by \<open>localeCompare\<close> of the strings \<open>10\<close> and \<open>9\<close>, dequeues the root 10 first
  and returns \<open>[10, 11]\<close>: the string comparison of C2. On the inputs of the
  repository's tests the two copies return the same lists.
\<close>

theorem variants_differ_by_string_order:
  "solveHeist nineSensors nineRisks [11] = Inr [[10, 11]] \<and>
   solveHeist_perRoot nineSensors nineRisks [11] = Inr [[9, 11]] \<and>
   rootPath nineGraph (set (rootsOf nineSensors)) 11 [9, 11] \<and>
   pathRisk (buildRiskMap nineRisks) [9, 11] = pathRisk (buildRiskMap nineRisks) [10, 11] \<and>
   compare \<lparr>e_risk = 0, e_node = 10, e_path = [10]\<rparr> \<lparr>e_risk = 0, e_node = 9, e_path = [9]\<rparr> < 0 \<and>
   solveHeist tieSensors tieRisks [2] = Inr [[0, 2]] \<and>
   solveHeist_perRoot tieSensors tieRisks [2] = Inr [[0, 2]] \<and>
   solveHeist smallSensors smallRisks [4, 5, 6] = Inr [[1, 2, 4], [1, 2, 4, 6], [1, 2, 5]] \<and>
   solveHeist_perRoot smallSensors smallRisks [4, 5, 6] = Inr [[1, 2, 4], [1, 2, 4, 6], [1, 2, 5]] \<and>
   solveHeist zeroSensors zeroRisks [2, 3] = Inr [[0, 1, 2], [0, 1, 3]] \<and>
   solveHeist_perRoot zeroSensors zeroRisks [2, 3] = Inr [[0, 1, 2], [0, 1, 3]]"
proof -
  have "rootPath nineGraph (set (rootsOf nineSensors)) 11 [9, 11]"
    by (simp add: nineRoots rootPath_def edge_def neighborsOf_def nineGraph_def)
  moreover have "pathRisk (buildRiskMap nineRisks) [9, 11] = pathRisk (buildRiskMap nineRisks) [10, 11]"
    by (simp add: buildRiskMap_def setRisk_def getRisk_def nineRisks_def mkRisk_def)
  moreover have "compare \<lparr>e_risk = 0, e_node = 10, e_path = [10]\<rparr> \<lparr>e_risk = 0, e_node = 9, e_path = [9]\<rparr> < 0"
    by code_simp
  moreover have "solveHeist_perRoot tieSensors tieRisks [2] = Inr [[0, 2]]" by code_simp
  moreover have "solveHeist zeroSensors zeroRisks [2, 3] = Inr [[0, 1, 2], [0, 1, 3]]" by code_simp
  moreover have "solveHeist_perRoot zeroSensors zeroRisks [2, 3] = Inr [[0, 1, 2], [0, 1, 3]]" by code_simp
  ultimately show ?thesis
    by (intro conjI nineRun nineRun_perRoot tieRun smallRun smallRun_perRoot)
qed

text \<open>
  C9. Two runs of \<open>solveHeist\<close> on the same input end with the same result, whatever
  the queue of each run does within its contract: in every search of every
  iteration the queue may hold its elements in any arrangement and may return any
  least element, and still every run ends with the value of the function
  \<open>solveHeist\<close>, the error of the graph construction or the list of paths. Every
  input has such a run.
\<close>

theorem solveHeist_deterministic:
  "(heistRun sensors risks targetSensors out1 \<and> heistRun sensors risks targetSensors out2 \<longrightarrow> out1 = out2) \<and>
   (heistRun sensors risks targetSensors out1 \<longrightarrow> out1 = solveHeist sensors risks targetSensors) \<and>
   heistRun sensors risks targetSensors (solveHeist sensors risks targetSensors)"
  by (simp add: heistRun_iff)

theorem solveHeist_deterministic_witness:
  "heistRun tieSensors tieRisks [2] (Inr [[0, 2]]) \<and>
   heistRun tieSensors tieRisks [2] (solveHeist tieSensors tieRisks [2]) \<and>
   solveHeist tieSensors tieRisks [2] = Inr [[0, 2]]"
proof -
  note t = solveHeist_deterministic [of tieSensors tieRisks "[2]" "Inr [[0, 2]]"
      "solveHeist tieSensors tieRisks [2]"]
  from t have r: "heistRun tieSensors tieRisks [2] (solveHeist tieSensors tieRisks [2])" by blast
  from t tieHeist_rearranged r have "Inr [[0, 2]] = solveHeist tieSensors tieRisks [2]" by blast
  with tieHeist_rearranged r show ?thesis by simp
qed

text \<open>
  C10. Whatever the target list repeats, the output of \<open>solveHeist\<close> (multi-source
  copy and per-root copy) has no empty path, the final nodes of its paths are
  pairwise distinct, and each of them is one of the listed targets.
\<close>

theorem duplicate_targets_collapse:
  "(solveHeist sensors risks targetSensors = Inr paths \<longrightarrow>
      distinct (map last paths) \<and> set (map last paths) \<subseteq> set targetSensors \<and> [] \<notin> set paths) \<and>
   (solveHeist_perRoot sensors risks targetSensors = Inr paths' \<longrightarrow>
      distinct (map last paths') \<and> set (map last paths') \<subseteq> set targetSensors \<and> [] \<notin> set paths')"
proof (intro conjI impI)
  assume run: "solveHeist sensors risks targetSensors = Inr paths"
  then obtain g where g: "buildGraph sensors = Inr g"
    by (auto simp: solveHeist_def split: sum.splits)
  note ok = buildGraph_ok [OF g]
  let ?tr = "solveTrace sensors g (rootsOf sensors) (buildRiskMap risks) (newSet targetSensors)"
  from run g have paths: "paths = map (\<lambda>x. path (snd x)) ?tr"
    by (simp add: solveHeist_def solveLoop_trace)
  have last: "map last paths = map (\<lambda>x. target (snd x)) ?tr"
    unfolding paths by (rule map_last_trace [OF ok])
  from solveTrace_targets [OF ok, of "rootsOf sensors" "buildRiskMap risks" "newSet targetSensors"]
  show "distinct (map last paths)" and "set (map last paths) \<subseteq> set targetSensors"
    by (auto simp only: last set_newSet)
  show "[] \<notin> set paths"
  proof
    assume "[] \<in> set paths"
    then obtain x where x: "x \<in> set ?tr" "path (snd x) = []" by (auto simp: paths)
    from solveTrace_sound [OF ok x(1)] x(2) show False by (simp add: rootPath_def)
  qed
next
  assume run: "solveHeist_perRoot sensors risks targetSensors = Inr paths'"
  then obtain g where g: "buildGraph sensors = Inr g"
    by (auto simp: solveHeist_perRoot_def split: sum.splits)
  note ok = buildGraph_ok [OF g]
  from solveLoop_perRoot_targets [OF ok, of "rootsOf sensors" "buildRiskMap risks" "newSet targetSensors" "[]"]
    run g
  show "distinct (map last paths')" and "set (map last paths') \<subseteq> set targetSensors"
    and "[] \<notin> set paths'"
    by (auto simp: solveHeist_perRoot_def set_newSet)
qed

theorem duplicate_targets_collapse_witness:
  "solveHeist tieSensors tieRisks [2, 2] = Inr [[0, 2]] \<and>
   solveHeist_perRoot tieSensors tieRisks [2, 2] = Inr [[0, 2]] \<and>
   distinct (map last [[0, 2 :: nat]]) \<and> set (map last [[0, 2 :: nat]]) \<subseteq> set [2, 2]"
  using duplicate_targets_collapse [of tieSensors tieRisks "[2, 2]" "[[0, 2]]" "[[0, 2]]"]
    tieRunDup tieRunDup_perRoot
  by blast

end
